theory Spec2Isabelle
  imports Main
begin

section \<open>Python values and the operations the editor applies to them\<close>

text \<open>
  The level editor keeps the chapter as the value that \<^verbatim>\<open>json.load\<close> returned: nested
  dicts, lists, strings, integers, booleans and \<^verbatim>\<open>None\<close>. A dict is an association list
  in insertion order (Python dicts keep it). Floating-point numbers are left out of the
  model. Strings are lists of characters with code points below 256.
\<close>

datatype error =
  AttributeError | TypeError | IndexError | KeyError | ValueError | JSONDecodeError | Unmodelled

datatype json =
  JNull | JBool bool | JInt int | JStr string | JArr "json list" | JObj "(string \<times> json) list"

text \<open>Truth value of an object, as \<^verbatim>\<open>if x:\<close> and \<^verbatim>\<open>x or y\<close> test it.\<close>

fun truthy :: "json \<Rightarrow> bool" where
  "truthy JNull = False"
| "truthy (JBool b) = b"
| "truthy (JInt n) = (n \<noteq> 0)"
| "truthy (JStr s) = (s \<noteq> [])"
| "truthy (JArr xs) = (xs \<noteq> [])"
| "truthy (JObj kvs) = (kvs \<noteq> [])"

text \<open>\<^verbatim>\<open>d.get(k, default)\<close>: only a dict has the method.\<close>

fun py_get :: "json \<Rightarrow> string \<Rightarrow> json \<Rightarrow> error + json" where
  "py_get (JObj kvs) k d = Inr (case map_of kvs k of None \<Rightarrow> d | Some v \<Rightarrow> v)"
| "py_get _ k d = Inl AttributeError"

text \<open>\<^verbatim>\<open>len(x)\<close>.\<close>

fun py_len :: "json \<Rightarrow> error + nat" where
  "py_len (JArr xs) = Inr (length xs)"
| "py_len (JStr s) = Inr (length s)"
| "py_len (JObj kvs) = Inr (length kvs)"
| "py_len _ = Inl TypeError"

text \<open>
  \<^verbatim>\<open>xs[i]\<close> on a list: a negative index counts from the end, an index outside
  \<^verbatim>\<open>[-len, len)\<close> raises \<^verbatim>\<open>IndexError\<close>.
\<close>

definition list_index :: "'a list \<Rightarrow> int \<Rightarrow> error + nat" where
  "list_index xs i =
     (if 0 \<le> i \<and> i < int (length xs) then Inr (nat i)
      else if i < 0 \<and> - int (length xs) \<le> i then Inr (nat (int (length xs) + i))
      else Inl IndexError)"

text \<open>
  \<^verbatim>\<open>x[i]\<close> with an integer \<^verbatim>\<open>i\<close>. A dict that came from JSON has string keys only, so
  an integer key is missing; a string yields the one-character string.
\<close>

fun py_getitem :: "json \<Rightarrow> int \<Rightarrow> error + json" where
  "py_getitem (JArr xs) i = (case list_index xs i of Inl e \<Rightarrow> Inl e | Inr j \<Rightarrow> Inr (xs ! j))"
| "py_getitem (JStr s) i = (case list_index s i of Inl e \<Rightarrow> Inl e | Inr j \<Rightarrow> Inr (JStr [s ! j]))"
| "py_getitem (JObj kvs) i = Inl KeyError"
| "py_getitem _ i = Inl TypeError"

text \<open>\<^verbatim>\<open>x[k]\<close> with a string \<^verbatim>\<open>k\<close>.\<close>

fun py_getkey :: "json \<Rightarrow> string \<Rightarrow> error + json" where
  "py_getkey (JObj kvs) k = (case map_of kvs k of None \<Rightarrow> Inl KeyError | Some v \<Rightarrow> Inr v)"
| "py_getkey _ k = Inl TypeError"

text \<open>\<^verbatim>\<open>d[k] = v\<close> on a dict: an existing key keeps its place, a new one goes last.\<close>

fun dict_set :: "(string \<times> json) list \<Rightarrow> string \<Rightarrow> json \<Rightarrow> (string \<times> json) list" where
  "dict_set [] k v = [(k, v)]"
| "dict_set ((k', v') # kvs) k v =
     (if k' = k then (k, v) # kvs else (k', v') # dict_set kvs k v)"

text \<open>The items a \<^verbatim>\<open>for\<close> loop (or \<^verbatim>\<open>str.join\<close>) draws from a value.\<close>

fun py_iter :: "json \<Rightarrow> error + json list" where
  "py_iter (JArr xs) = Inr xs"
| "py_iter (JStr s) = Inr (map (\<lambda>c. JStr [c]) s)"
| "py_iter (JObj kvs) = Inr (map (\<lambda>kv. JStr (fst kv)) kvs)"
| "py_iter _ = Inl TypeError"

text \<open>Only immutable values can be dict keys.\<close>

fun hashable :: "json \<Rightarrow> bool" where
  "hashable (JArr xs) = False"
| "hashable (JObj kvs) = False"
| "hashable _ = True"

text \<open>
  A loop body that can raise: the loop stops at the first exception. A block of
  statements over a state: the block stops at the first exception and keeps the state
  reached so far.
\<close>

fun for_each :: "('a \<Rightarrow> error option) \<Rightarrow> 'a list \<Rightarrow> error option" where
  "for_each f [] = None"
| "for_each f (x # xs) = (case f x of None \<Rightarrow> for_each f xs | Some e \<Rightarrow> Some e)"

fun run :: "('s \<Rightarrow> error option \<times> 's) list \<Rightarrow> 's \<Rightarrow> error option \<times> 's" where
  "run [] s = (None, s)"
| "run (f # fs) s = (case f s of (None, s') \<Rightarrow> run fs s' | (Some e, s') \<Rightarrow> (Some e, s'))"

subsection \<open>Strings\<close>

text \<open>
  \<^verbatim>\<open>str.isspace\<close> on the code points below 256: tab to carriage return, the four
  separators 28 to 31, space, NEL (133) and the no-break space (160).
\<close>

definition isspace :: "char \<Rightarrow> bool" where
  "isspace c =
     (let n = (of_char c :: nat)
      in (9 \<le> n \<and> n \<le> 13) \<or> (28 \<le> n \<and> n \<le> 32) \<or> n = 133 \<or> n = 160)"

text \<open>\<^verbatim>\<open>s.strip()\<close>: whitespace removed from both ends.\<close>

definition strip :: "string \<Rightarrow> string" where
  "strip s = rev (dropWhile isspace (rev (dropWhile isspace s)))"

text \<open>\<^verbatim>\<open>s.split(sep)\<close> for a one-character separator: always at least one piece.\<close>

fun split_on :: "char \<Rightarrow> string \<Rightarrow> string list" where
  "split_on sep [] = [[]]"
| "split_on sep (c # cs) =
     (if c = sep then [] # split_on sep cs
      else (case split_on sep cs of [] \<Rightarrow> [[c]] | w # ws \<Rightarrow> (c # w) # ws))"

text \<open>\<^verbatim>\<open>sep.join(xs)\<close> for strings.\<close>

fun join :: "string \<Rightarrow> string list \<Rightarrow> string" where
  "join sep [] = []"
| "join sep [x] = x"
| "join sep (x # y # ys) = x @ sep @ join sep (y # ys)"

text \<open>Decimal digits of a natural number and \<^verbatim>\<open>str(n)\<close> of an integer.\<close>

definition digit_char :: "nat \<Rightarrow> char" where
  "digit_char d = ''0123456789'' ! d"

fun show_nat :: "nat \<Rightarrow> string" where
  "show_nat n = (if n < 10 then [digit_char n] else show_nat (n div 10) @ [digit_char (n mod 10)])"

declare show_nat.simps [simp del]

definition show_int :: "int \<Rightarrow> string" where
  "show_int i = (if i < 0 then CHR ''-'' # show_nat (nat (- i)) else show_nat (nat i))"

text \<open>
  The format \<^verbatim>\<open>{n:02d}\<close>: at least two characters, filled with zeros on the left after
  the sign.
\<close>

definition format_02d :: "int \<Rightarrow> string" where
  "format_02d i =
     (if i < 0 then CHR ''-'' # show_nat (nat (- i))
      else if i < 10 then CHR ''0'' # show_nat (nat i)
      else show_nat (nat i))"

text \<open>
  \<^verbatim>\<open>f"{x}"\<close> for the values the model formats. The text Python prints for a list or a
  dict (their \<^verbatim>\<open>repr\<close>) is not modelled.
\<close>

fun py_format :: "json \<Rightarrow> error + string" where
  "py_format JNull = Inr ''None''"
| "py_format (JBool b) = Inr (if b then ''True'' else ''False'')"
| "py_format (JInt n) = Inr (show_int n)"
| "py_format (JStr s) = Inr s"
| "py_format _ = Inl Unmodelled"

section \<open>The board and the two step editors\<close>

definition PLAYERS :: "string list" where
  "PLAYERS = [''white'', ''black'']"

definition WIN_CONDITIONS :: "string list" where
  "WIN_CONDITIONS = [''capture_chief'', ''cross_piece'']"

definition BOARD_SIZE :: nat where
  "BOARD_SIZE = 5"

definition empty_board :: json where
  "empty_board = JArr (replicate BOARD_SIZE (JArr (replicate BOARD_SIZE JNull)))"

text \<open>\<^verbatim>\<open>xs[i]\<close> for a list constant and a position read from a drop-down.\<close>

definition const_index :: "string list \<Rightarrow> nat \<Rightarrow> error + string" where
  "const_index xs i = (if i < length xs then Inr (xs ! i) else Inl IndexError)"

text \<open>\<^verbatim>\<open>xs.index(x) if x in xs else 0\<close>.\<close>

fun index_or_zero :: "string list \<Rightarrow> json \<Rightarrow> nat" where
  "index_or_zero [] x = 0"
| "index_or_zero (y # ys) x =
     (if x = JStr y then 0
      else if x \<in> set (map JStr ys) then Suc (index_or_zero ys x) else 0)"

subsection \<open>BoardGrid\<close>

text \<open>
  \<^verbatim>\<open>piece_symbol(cell)\<close> followed by \<^verbatim>\<open>piece_tooltip(cell)\<close>, as \<^verbatim>\<open>_refresh\<close> calls them
  for every button; only a raised exception matters to the model.
\<close>

definition cell_exc :: "json \<Rightarrow> error option" where
  "cell_exc cell =
     (if cell = JNull then None
      else (case py_getkey cell ''player'' of Inl e \<Rightarrow> Some e | Inr pl \<Rightarrow>
        (if \<not> hashable pl then Some TypeError
         else (case py_getkey cell ''type'' of Inl e \<Rightarrow> Some e | Inr ty \<Rightarrow>
           (if \<not> hashable ty then Some TypeError
            else (case pl of JStr x \<Rightarrow> None | _ \<Rightarrow> Some AttributeError))))))"

definition board_cells :: "(nat \<times> nat) list" where
  "board_cells = concat (map (\<lambda>row. map (\<lambda>col. (row, col)) [0..<BOARD_SIZE]) [0..<BOARD_SIZE])"

definition refresh_exc :: "json \<Rightarrow> error option" where
  "refresh_exc b =
     for_each (\<lambda>rc. case py_getitem b (int (fst rc)) of Inl e \<Rightarrow> Some e | Inr r \<Rightarrow>
                 (case py_getitem r (int (snd rc)) of Inl e \<Rightarrow> Some e | Inr cell \<Rightarrow> cell_exc cell))
       board_cells"

text \<open>
  \<^verbatim>\<open>self._board[row][col] = piece\<close>, the assignment of \<^verbatim>\<open>BoardGrid._place\<close>. The row
  is fetched first, then the cell is stored; an exception leaves the board as it was.
  Storing under an integer key of a dict is outside the model.
\<close>

definition place_cell :: "json \<Rightarrow> int \<Rightarrow> int \<Rightarrow> json \<Rightarrow> error + json" where
  "place_cell b row col piece =
     (case py_getitem b row of Inl e \<Rightarrow> Inl e | Inr r \<Rightarrow>
        (case r of
           JArr cells \<Rightarrow>
             (case list_index cells col of Inl e \<Rightarrow> Inl e | Inr c \<Rightarrow>
                (case b of
                   JArr rows \<Rightarrow>
                     (case list_index rows row of Inl e \<Rightarrow> Inl e | Inr i \<Rightarrow>
                        Inr (JArr (rows[i := JArr (cells[c := piece])])))
                 | _ \<Rightarrow> Inl TypeError))
         | JObj kvs \<Rightarrow> Inl Unmodelled
         | _ \<Rightarrow> Inl TypeError))"

subsection \<open>PuzzleEditor\<close>

record puzzle_editor =
  id_entry :: string
  title_entry :: string
  desc_entry :: string
  hint_entry :: string
  player_combo :: nat
  win_combo :: nat
  max_moves_spin :: int
  opp_entry :: string
  board :: json
  loading :: bool

text \<open>A text entry takes a string; anything else raises \<^verbatim>\<open>TypeError\<close>.\<close>

definition set_text ::
  "(string \<Rightarrow> puzzle_editor \<Rightarrow> puzzle_editor) \<Rightarrow> error + json \<Rightarrow> puzzle_editor
     \<Rightarrow> error option \<times> puzzle_editor" where
  "set_text upd r p =
     (case r of Inl e \<Rightarrow> (Some e, p)
      | Inr (JStr t) \<Rightarrow> (None, upd t p)
      | Inr _ \<Rightarrow> (Some TypeError, p))"

text \<open>
  The spin button is built on \<^verbatim>\<open>Gtk.Adjustment(value=1, lower=1, upper=20)\<close>: a number
  set on it is clamped to that range, a value that is no number raises.
\<close>

definition spin_set_value :: "json \<Rightarrow> puzzle_editor \<Rightarrow> error option \<times> puzzle_editor" where
  "spin_set_value v p =
     (case v of
        JInt n \<Rightarrow> (None, p\<lparr>max_moves_spin := max 1 (min 20 n)\<rparr>)
      | JBool b \<Rightarrow> (None, p\<lparr>max_moves_spin := 1\<rparr>)
      | _ \<Rightarrow> (Some TypeError, p))"

text \<open>\<^verbatim>\<open>", ".join(opp_moves)\<close>: every item must be a string.\<close>

fun str_items :: "json list \<Rightarrow> error + string list" where
  "str_items [] = Inr []"
| "str_items (JStr s # xs) = (case str_items xs of Inl e \<Rightarrow> Inl e | Inr ss \<Rightarrow> Inr (s # ss))"
| "str_items (_ # xs) = Inl TypeError"

definition join_json :: "string \<Rightarrow> json \<Rightarrow> error + json" where
  "join_json sep v =
     (case py_iter v of Inl e \<Rightarrow> Inl e | Inr xs \<Rightarrow>
        (case str_items xs of Inl e \<Rightarrow> Inl e | Inr ss \<Rightarrow> Inr (JStr (join sep ss))))"

text \<open>\<^verbatim>\<open>BoardGrid.set_board\<close>: the board is copied (or replaced by an empty one), then drawn.\<close>

definition set_board :: "json \<Rightarrow> puzzle_editor \<Rightarrow> error option \<times> puzzle_editor" where
  "set_board b p =
     (let b' = (if truthy b then b else empty_board)
      in (refresh_exc b', p\<lparr>board := b'\<rparr>))"

text \<open>\<^verbatim>\<open>PuzzleEditor.set_step\<close>, statement by statement.\<close>

definition puzzle_set_step :: "json \<Rightarrow> puzzle_editor \<Rightarrow> error option \<times> puzzle_editor" where
  "puzzle_set_step step =
     run [
       (\<lambda>p. (None, p\<lparr>loading := True\<rparr>)),
       set_text (\<lambda>t p. p\<lparr>id_entry := t\<rparr>) (py_get step ''id'' (JStr [])),
       set_text (\<lambda>t p. p\<lparr>title_entry := t\<rparr>) (py_get step ''title'' (JStr [])),
       set_text (\<lambda>t p. p\<lparr>desc_entry := t\<rparr>) (py_get step ''description'' (JStr [])),
       set_text (\<lambda>t p. p\<lparr>hint_entry := t\<rparr>) (py_get step ''hint'' (JStr [])),
       (\<lambda>p. case py_get step ''player'' (JStr ''white'') of Inl e \<Rightarrow> (Some e, p)
            | Inr player \<Rightarrow> (None, p\<lparr>player_combo := index_or_zero PLAYERS player\<rparr>)),
       (\<lambda>p. case py_get step ''win_condition'' (JObj []) of Inl e \<Rightarrow> (Some e, p)
            | Inr wc \<Rightarrow>
              (case py_get wc ''type'' (JStr ''capture_chief'') of Inl e \<Rightarrow> (Some e, p)
               | Inr wc_type \<Rightarrow>
                   (let p' = p\<lparr>win_combo := index_or_zero WIN_CONDITIONS wc_type\<rparr>
                    in case py_get wc ''max_moves'' (JInt 1) of Inl e \<Rightarrow> (Some e, p')
                       | Inr mm \<Rightarrow> spin_set_value mm p'))),
       (\<lambda>p. case py_get step ''opponent_moves'' (JArr []) of Inl e \<Rightarrow> (Some e, p)
            | Inr opp_moves \<Rightarrow> set_text (\<lambda>t p. p\<lparr>opp_entry := t\<rparr>) (join_json '', '' opp_moves) p),
       (\<lambda>p. case py_get step ''board'' empty_board of Inl e \<Rightarrow> (Some e, p)
            | Inr b \<Rightarrow> set_board b p),
       (\<lambda>p. (None, p\<lparr>loading := False\<rparr>))
     ]"

text \<open>
  The opponent moves of \<^verbatim>\<open>PuzzleEditor.get_step_data\<close>: the field is stripped; if
  anything is left it is split at the commas, and the pieces that are not blank are kept,
  each stripped.
\<close>

definition opponent_moves :: "string \<Rightarrow> string list" where
  "opponent_moves text =
     (let opp_text = strip text
      in if opp_text \<noteq> [] then map strip (filter (\<lambda>m. strip m \<noteq> []) (split_on CHR '','' opp_text))
         else [])"

text \<open>\<^verbatim>\<open>PuzzleEditor.get_step_data\<close>.\<close>

definition puzzle_get_step_data :: "puzzle_editor \<Rightarrow> error + json" where
  "puzzle_get_step_data p =
     (case const_index WIN_CONDITIONS (win_combo p) of Inl e \<Rightarrow> Inl e | Inr wc_type \<Rightarrow>
        (case const_index PLAYERS (player_combo p) of Inl e \<Rightarrow> Inl e | Inr player \<Rightarrow>
           Inr (JObj [
             (''type'', JStr ''puzzle''),
             (''id'', JStr (strip (id_entry p))),
             (''title'', JStr (strip (title_entry p))),
             (''description'', JStr (strip (desc_entry p))),
             (''player'', JStr player),
             (''hint'', JStr (strip (hint_entry p))),
             (''board'', board p),
             (''win_condition'',
                JObj [(''type'', JStr wc_type), (''max_moves'', JInt (max_moves_spin p))]),
             (''opponent_moves'', JArr (map JStr (opponent_moves (opp_entry p))))
           ])))"

subsection \<open>DialogEditor\<close>

text \<open>
  \<^verbatim>\<open>DialogEditor._rebuild\<close> draws one row per line; \<^verbatim>\<open>_make_row\<close> reads the three
  fields of the line and puts \<^verbatim>\<open>line.get(key) or ""\<close> into a text entry.
\<close>

definition make_row_exc :: "json \<Rightarrow> error option" where
  "make_row_exc line =
     for_each (\<lambda>key. case py_get line key JNull of Inl e \<Rightarrow> Some e
                 | Inr v \<Rightarrow> (if \<not> truthy v then None
                             else (case v of JStr t \<Rightarrow> None | _ \<Rightarrow> Some TypeError)))
       [''speaker'', ''portrait'', ''text'']"

definition dialog_rebuild_exc :: "json \<Rightarrow> error option" where
  "dialog_rebuild_exc ls =
     (case py_iter ls of Inl e \<Rightarrow> Some e | Inr xs \<Rightarrow> for_each make_row_exc xs)"

text \<open>\<^verbatim>\<open>DialogEditor.get_step_data\<close>, on the editor's \<^verbatim>\<open>_lines\<close>.\<close>

definition dialog_get_step_data :: "json \<Rightarrow> json" where
  "dialog_get_step_data ls = JObj [(''type'', JStr ''dialog''), (''lines'', ls)]"

text \<open>
  The assignment \<^verbatim>\<open>self._lines[idx][key] = val\<close> of \<^verbatim>\<open>_on_field_changed\<close>, where
  \<^verbatim>\<open>val = entry.get_text().strip() or None\<close>.
\<close>

definition field_value :: "string \<Rightarrow> json" where
  "field_value text = (if strip text \<noteq> [] then JStr (strip text) else JNull)"

definition set_line_field :: "json \<Rightarrow> nat \<Rightarrow> string \<Rightarrow> json \<Rightarrow> error + json" where
  "set_line_field ls idx key val =
     (case py_getitem ls (int idx) of Inl e \<Rightarrow> Inl e | Inr line \<Rightarrow>
        (case line of
           JObj kvs \<Rightarrow>
             (case ls of JArr xs \<Rightarrow> Inr (JArr (xs[idx := JObj (dict_set kvs key val)]))
              | _ \<Rightarrow> Inl TypeError)
         | _ \<Rightarrow> Inl TypeError))"

section \<open>LevelEditorWindow\<close>

text \<open>
  The fields of the window that the operations read and write: the chapter (\<^verbatim>\<open>None\<close>
  until a file is loaded), the path of the file, the index of the active step, the dirty
  flag, the puzzle editor, the lines held by the dialog editor, and the page the editor
  stack shows. The GTK widgets themselves are not modelled: drawing code appears only as
  the exception it can raise. The step list matters through its \<^verbatim>\<open>row-selected\<close> signal,
  which the window connects to \<^verbatim>\<open>_on_row_selected\<close>: it is emitted when the user
  selects a row and when the program calls \<^verbatim>\<open>select_row\<close>.
\<close>

record window =
  chapter_doc :: json
  filepath :: "string option"
  current_idx :: int
  dirty :: bool
  puzzle_ed :: puzzle_editor
  dialog_lines :: json
  visible_child :: string

definition init_puzzle_editor :: puzzle_editor where
  "init_puzzle_editor =
     \<lparr>id_entry = [], title_entry = [], desc_entry = [], hint_entry = [], player_combo = 0,
      win_combo = 0, max_moves_spin = 1, opp_entry = [], board = empty_board, loading = False\<rparr>"

definition init_window :: window where
  "init_window =
     \<lparr>chapter_doc = JNull, filepath = None, current_idx = - 1, dirty = False,
      puzzle_ed = init_puzzle_editor, dialog_lines = JArr [], visible_child = ''placeholder''\<rparr>"

text \<open>
  \<^verbatim>\<open>_update_title\<close> reads the chapter's title when a chapter and a path are there; the
  label it writes is not modelled.
\<close>

definition update_title_exc :: "window \<Rightarrow> error option" where
  "update_title_exc w =
     (if truthy (chapter_doc w) \<and> (case filepath w of None \<Rightarrow> False | Some p \<Rightarrow> p \<noteq> [])
      then (case py_get (chapter_doc w) ''title'' JNull of Inl e \<Rightarrow> Some e | Inr t \<Rightarrow> None)
      else None)"

definition mark_dirty :: "window \<Rightarrow> error option \<times> window" where
  "mark_dirty w =
     (if \<not> dirty w then (update_title_exc (w\<lparr>dirty := True\<rparr>), w\<lparr>dirty := True\<rparr>)
      else (None, w))"

text \<open>
  \<^verbatim>\<open>_rebuild_step_list\<close> builds one label per step. For a dialog step with lines it
  reads the first line and slices its text, which must be a string.
\<close>

definition step_label_exc :: "json \<Rightarrow> error option" where
  "step_label_exc step =
     (case py_get step ''type'' JNull of Inl e \<Rightarrow> Some e | Inr stype \<Rightarrow>
        (if stype = JStr ''dialog'' then
           (case py_get step ''lines'' (JArr []) of Inl e \<Rightarrow> Some e | Inr lines \<Rightarrow>
              (if truthy lines then
                 (case py_getitem lines 0 of Inl e \<Rightarrow> Some e | Inr first \<Rightarrow>
                    (case py_get first ''speaker'' JNull of Inl e \<Rightarrow> Some e | Inr spkr \<Rightarrow>
                       (case py_get first ''text'' (JStr []) of Inl e \<Rightarrow> Some e | Inr txt \<Rightarrow>
                          (case txt of JStr t \<Rightarrow> None | _ \<Rightarrow> Some TypeError))))
               else None))
         else None))"

definition rebuild_step_list_exc :: "window \<Rightarrow> error option" where
  "rebuild_step_list_exc w =
     (if \<not> truthy (chapter_doc w) then None
      else (case py_get (chapter_doc w) ''steps'' (JArr []) of Inl e \<Rightarrow> Some e | Inr steps \<Rightarrow>
              (case py_iter steps of Inl e \<Rightarrow> Some e | Inr xs \<Rightarrow> for_each step_label_exc xs)))"

text \<open>\<^verbatim>\<open>DialogEditor.set_step\<close> and \<^verbatim>\<open>_show_step\<close>.\<close>

definition dialog_set_step :: "json \<Rightarrow> window \<Rightarrow> error option \<times> window" where
  "dialog_set_step step w =
     (case py_get step ''lines'' (JArr []) of Inl e \<Rightarrow> (Some e, w)
      | Inr ls \<Rightarrow> (dialog_rebuild_exc ls, w\<lparr>dialog_lines := ls\<rparr>))"

definition show_step :: "json \<Rightarrow> window \<Rightarrow> error option \<times> window" where
  "show_step step w =
     (case py_get step ''type'' JNull of Inl e \<Rightarrow> (Some e, w) | Inr stype \<Rightarrow>
        (if stype = JStr ''puzzle'' then
           (case puzzle_set_step step (puzzle_ed w) of
              (Some e, p) \<Rightarrow> (Some e, w\<lparr>puzzle_ed := p\<rparr>)
            | (None, p) \<Rightarrow> (None, w\<lparr>puzzle_ed := p, visible_child := ''puzzle''\<rparr>))
         else if stype = JStr ''dialog'' then
           (case dialog_set_step step w of
              (Some e, w') \<Rightarrow> (Some e, w')
            | (None, w') \<Rightarrow> (None, w'\<lparr>visible_child := ''dialog''\<rparr>))
         else (None, w\<lparr>visible_child := ''placeholder''\<rparr>)))"

text \<open>
  The list \<^verbatim>\<open>steps\<close> that the operations change is the one the chapter holds under
  \<^verbatim>\<open>"steps"\<close>, so a change to it is a change to the chapter.
\<close>

fun store_steps :: "json \<Rightarrow> json list \<Rightarrow> json" where
  "store_steps (JObj kvs) xs = JObj (dict_set kvs ''steps'' (JArr xs))"
| "store_steps c xs = c"

text \<open>\<^verbatim>\<open>_flush\<close>: the active editor's step replaces the active step.\<close>

definition flush :: "window \<Rightarrow> error option \<times> window" where
  "flush w =
     (if current_idx w < 0 \<or> \<not> truthy (chapter_doc w) then (None, w)
      else (case py_get (chapter_doc w) ''steps'' (JArr []) of Inl e \<Rightarrow> (Some e, w) | Inr steps \<Rightarrow>
        (case py_len steps of Inl e \<Rightarrow> (Some e, w) | Inr n \<Rightarrow>
          (if current_idx w \<ge> int n then (None, w)
           else (case py_getitem steps (current_idx w) of Inl e \<Rightarrow> (Some e, w) | Inr step \<Rightarrow>
             (case py_get step ''type'' JNull of Inl e \<Rightarrow> (Some e, w) | Inr stype \<Rightarrow>
               (case steps of
                  JArr xs \<Rightarrow>
                    (if stype = JStr ''puzzle'' then
                       (case puzzle_get_step_data (puzzle_ed w) of Inl e \<Rightarrow> (Some e, w)
                        | Inr d \<Rightarrow>
                            (None, w\<lparr>chapter_doc :=
                               store_steps (chapter_doc w) (xs[nat (current_idx w) := d])\<rparr>))
                     else if stype = JStr ''dialog'' then
                       (None, w\<lparr>chapter_doc :=
                          store_steps (chapter_doc w)
                            (xs[nat (current_idx w) := dialog_get_step_data (dialog_lines w)])\<rparr>)
                     else (None, w))
                | _ \<Rightarrow> (Some TypeError, w))))))))"

text \<open>\<^verbatim>\<open>_on_row_selected\<close> for the row at position \<^verbatim>\<open>idx\<close> of the step list.\<close>

definition on_row_selected :: "nat \<Rightarrow> window \<Rightarrow> error option \<times> window" where
  "on_row_selected idx =
     run [
       flush,
       (\<lambda>w. (None, w\<lparr>current_idx := int idx\<rparr>)),
       (\<lambda>w. case py_get (chapter_doc w) ''steps'' (JArr []) of Inl e \<Rightarrow> (Some e, w) | Inr steps \<Rightarrow>
          (case py_len steps of Inl e \<Rightarrow> (Some e, w) | Inr n \<Rightarrow>
             (if 0 \<le> current_idx w \<and> current_idx w < int n
              then (case py_getitem steps (current_idx w) of
                      Inl e \<Rightarrow> (Some e, w) | Inr step \<Rightarrow> show_step step w)
              else (None, w))))
     ]"

text \<open>
  \<^verbatim>\<open>_rebuild_step_list(keep_selection)\<close>. The old rows are removed (for a selected row
  the signal comes with no row, and the handler returns at once) and one row per step is
  built. With \<^verbatim>\<open>keep_selection\<close> and an active index, the row at
  \<^verbatim>\<open>min(self._current_idx, len(steps) - 1)\<close> is selected if there is one; the rows are
  new, so \<^verbatim>\<open>select_row\<close> emits the signal and \<^verbatim>\<open>_on_row_selected\<close> runs before
  \<^verbatim>\<open>_rebuild_step_list\<close> returns. An exception raised inside a signal handler is
  printed and does not reach the caller of \<^verbatim>\<open>select_row\<close>; the state the handler
  reached stays.
\<close>

definition rebuild_step_list :: "bool \<Rightarrow> window \<Rightarrow> error option \<times> window" where
  "rebuild_step_list keep_selection w =
     (case rebuild_step_list_exc w of
        Some e \<Rightarrow> (Some e, w)
      | None \<Rightarrow>
          (if truthy (chapter_doc w) \<and> keep_selection \<and> 0 \<le> current_idx w then
             (case py_get (chapter_doc w) ''steps'' (JArr []) of Inl e \<Rightarrow> (Some e, w) | Inr steps \<Rightarrow>
                (case py_len steps of Inl e \<Rightarrow> (Some e, w) | Inr n \<Rightarrow>
                   (let idx = min (current_idx w) (int n - 1)
                    in if 0 \<le> idx then (None, snd (on_row_selected (nat idx) w))
                       else (None, w))))
           else (None, w)))"

text \<open>The pieces of \<^verbatim>\<open>_add_step\<close>.\<close>

definition dict_setdefault ::
  "(string \<times> json) list \<Rightarrow> string \<Rightarrow> json \<Rightarrow> (string \<times> json) list \<times> json" where
  "dict_setdefault kvs k d =
     (case map_of kvs k of None \<Rightarrow> (kvs @ [(k, d)], d) | Some v \<Rightarrow> (kvs, v))"

text \<open>\<^verbatim>\<open>sum(1 for s in steps if s.get("type") == "puzzle")\<close>.\<close>

fun count_puzzles :: "json list \<Rightarrow> error + nat" where
  "count_puzzles [] = Inr 0"
| "count_puzzles (s # ss) =
     (case py_get s ''type'' JNull of Inl e \<Rightarrow> Inl e | Inr t \<Rightarrow>
        (case count_puzzles ss of Inl e \<Rightarrow> Inl e
         | Inr n \<Rightarrow> Inr (if t = JStr ''puzzle'' then Suc n else n)))"

definition new_dialog_step :: json where
  "new_dialog_step =
     JObj [(''type'', JStr ''dialog''),
           (''lines'', JArr [JObj [(''speaker'', JNull), (''portrait'', JNull), (''text'', JStr [])]])]"

definition new_puzzle_step :: "json \<Rightarrow> json \<Rightarrow> error + json" where
  "new_puzzle_step chap steps =
     (case py_iter steps of Inl e \<Rightarrow> Inl e | Inr xs \<Rightarrow>
        (case count_puzzles xs of Inl e \<Rightarrow> Inl e | Inr n \<Rightarrow>
           (let puzzle_count = int n + 1 in
            case py_get chap ''chapter'' (JInt 1) of Inl e \<Rightarrow> Inl e | Inr chapter_num \<Rightarrow>
              (case py_format chapter_num of Inl e \<Rightarrow> Inl e | Inr num \<Rightarrow>
                 Inr (JObj [
                   (''type'', JStr ''puzzle''),
                   (''id'', JStr (''ch'' @ num @ ''_p'' @ format_02d puzzle_count)),
                   (''title'', JStr ''New Puzzle''),
                   (''description'', JStr []),
                   (''player'', JStr ''white''),
                   (''hint'', JStr []),
                   (''board'', empty_board),
                   (''win_condition'',
                      JObj [(''type'', JStr ''capture_chief''), (''max_moves'', JInt 1)]),
                   (''opponent_moves'', JArr [])
                 ])))))"

text \<open>\<^verbatim>\<open>xs.insert(i, x)\<close> for \<^verbatim>\<open>i \<ge> 0\<close>: past the end it appends.\<close>

definition list_insert :: "'a list \<Rightarrow> nat \<Rightarrow> 'a \<Rightarrow> 'a list" where
  "list_insert xs i x = take i xs @ x # drop i xs"

text \<open>
  \<^verbatim>\<open>_add_step\<close>, from \<^verbatim>\<open>setdefault\<close> on: the state \<^verbatim>\<open>w\<close> is the one \<^verbatim>\<open>_flush\<close> left.
\<close>

definition add_step_body :: "string \<Rightarrow> window \<Rightarrow> error option \<times> window" where
  "add_step_body step_type w =
     (case chapter_doc w of
        JObj kvs \<Rightarrow>
          (let (kvs', steps) = dict_setdefault kvs ''steps'' (JArr []);
               w1 = w\<lparr>chapter_doc := JObj kvs'\<rparr>
           in case (if current_idx w1 \<ge> 0 then Inr (current_idx w1 + 1)
                    else (case py_len steps of Inl e \<Rightarrow> Inl e | Inr n \<Rightarrow> Inr (int n)))
              of Inl e \<Rightarrow> (Some e, w1)
               | Inr insert_at \<Rightarrow>
                  (case (if step_type = ''dialog'' then Inr new_dialog_step
                         else new_puzzle_step (chapter_doc w1) steps)
                   of Inl e \<Rightarrow> (Some e, w1)
                    | Inr new_step \<Rightarrow>
                       (case steps of
                          JArr xs \<Rightarrow>
                            run [
                              rebuild_step_list True,
                              show_step new_step,
                              mark_dirty
                            ] (w1\<lparr>chapter_doc :=
                                    store_steps (chapter_doc w1) (list_insert xs (nat insert_at) new_step),
                                  current_idx := insert_at\<rparr>)
                        | _ \<Rightarrow> (Some AttributeError, w1))))
      | _ \<Rightarrow> (Some AttributeError, w))"

definition add_step :: "string \<Rightarrow> window \<Rightarrow> error option \<times> window" where
  "add_step step_type w =
     (if \<not> truthy (chapter_doc w) then (None, w)
      else run [flush, add_step_body step_type] w)"

text \<open>
  \<^verbatim>\<open>_delete_step\<close>. Its variable \<^verbatim>\<open>steps\<close> is the list that the chapter holds, so
  after \<^verbatim>\<open>_rebuild_step_list\<close> it shows what the handler's \<^verbatim>\<open>_flush\<close> stored in that
  list.
\<close>

definition delete_step :: "window \<Rightarrow> error option \<times> window" where
  "delete_step w =
     (if \<not> truthy (chapter_doc w) \<or> current_idx w < 0 then (None, w)
      else (case py_get (chapter_doc w) ''steps'' (JArr []) of Inl e \<Rightarrow> (Some e, w) | Inr steps \<Rightarrow>
        (if \<not> truthy steps then (None, w)
         else (case py_len steps of Inl e \<Rightarrow> (Some e, w) | Inr n \<Rightarrow>
           (if current_idx w \<ge> int n then (None, w)
            else (case steps of
               JArr xs \<Rightarrow>
                 (let xs' = take (nat (current_idx w)) xs @ drop (Suc (nat (current_idx w))) xs;
                      w1 = w\<lparr>chapter_doc := store_steps (chapter_doc w) xs',
                             current_idx := min (current_idx w) (int (length xs') - 1)\<rparr>
                  in run [
                       rebuild_step_list True,
                       (\<lambda>w. if current_idx w \<ge> 0
                            then (case py_get (chapter_doc w) ''steps'' (JArr []) of
                                    Inl e \<Rightarrow> (Some e, w)
                                  | Inr steps' \<Rightarrow>
                                      (case py_getitem steps' (current_idx w) of
                                         Inl e \<Rightarrow> (Some e, w) | Inr step \<Rightarrow> show_step step w))
                            else (None, w\<lparr>visible_child := ''placeholder''\<rparr>)),
                       mark_dirty
                     ] w1)
             | JObj kvs \<Rightarrow> (Some KeyError, w)
             | _ \<Rightarrow> (Some TypeError, w)))))))"

text \<open>\<^verbatim>\<open>_move_step\<close>, after its \<^verbatim>\<open>_flush\<close>, and whole.\<close>

definition move_step_body :: "int \<Rightarrow> window \<Rightarrow> error option \<times> window" where
  "move_step_body direction w =
     (case py_get (chapter_doc w) ''steps'' (JArr []) of Inl e \<Rightarrow> (Some e, w) | Inr steps \<Rightarrow>
        (let new_idx = current_idx w + direction in
         case py_len steps of Inl e \<Rightarrow> (Some e, w) | Inr n \<Rightarrow>
           (if \<not> (0 \<le> new_idx \<and> new_idx < int n) then (None, w)
            else (case py_getitem steps new_idx of Inl e \<Rightarrow> (Some e, w) | Inr a \<Rightarrow>
              (case py_getitem steps (current_idx w) of Inl e \<Rightarrow> (Some e, w) | Inr b \<Rightarrow>
                (case steps of
                   JArr xs \<Rightarrow>
                     run [rebuild_step_list True, mark_dirty]
                       (w\<lparr>chapter_doc :=
                            store_steps (chapter_doc w)
                              ((xs[nat (current_idx w) := a])[nat new_idx := b]),
                          current_idx := new_idx\<rparr>)
                 | _ \<Rightarrow> (Some TypeError, w)))))))"

definition move_step :: "int \<Rightarrow> window \<Rightarrow> error option \<times> window" where
  "move_step direction w =
     (if \<not> truthy (chapter_doc w) \<or> current_idx w < 0 then (None, w)
      else run [flush, move_step_body direction] w)"

text \<open>
  \<^verbatim>\<open>DialogEditor._on_field_changed\<close> with the text typed into the entry of line
  \<^verbatim>\<open>idx\<close>, and \<^verbatim>\<open>BoardGrid._place\<close> with its change notification through
  \<^verbatim>\<open>PuzzleEditor._notify\<close>.
\<close>

definition on_field_changed :: "string \<Rightarrow> nat \<Rightarrow> string \<Rightarrow> window \<Rightarrow> error option \<times> window" where
  "on_field_changed text idx key w =
     (case py_len (dialog_lines w) of Inl e \<Rightarrow> (Some e, w) | Inr n \<Rightarrow>
        (if idx < n then
           (case set_line_field (dialog_lines w) idx key (field_value text) of
              Inl e \<Rightarrow> (Some e, w)
            | Inr ls \<Rightarrow> mark_dirty (w\<lparr>dialog_lines := ls\<rparr>))
         else (None, w)))"

definition place :: "int \<Rightarrow> int \<Rightarrow> json \<Rightarrow> window \<Rightarrow> error option \<times> window" where
  "place row col piece w =
     (case place_cell (board (puzzle_ed w)) row col piece of Inl e \<Rightarrow> (Some e, w)
      | Inr b \<Rightarrow>
          run [
            (\<lambda>w. (refresh_exc (board (puzzle_ed w)), w)),
            (\<lambda>w. if \<not> loading (puzzle_ed w) then mark_dirty w else (None, w))
          ] (w\<lparr>puzzle_ed := (puzzle_ed w)\<lparr>board := b\<rparr>\<rparr>))"

section \<open>Chapter files\<close>

subsection \<open>Writing JSON text\<close>

text \<open>
  \<^verbatim>\<open>json.dump(obj, fh, indent=2)\<close> as the standard library defines it for the values of
  type \<^typ>\<open>json\<close>: \<^verbatim>\<open>ensure_ascii\<close> is on, so a string is written between double
  quotes with the quote, the backslash and every character outside \<^verbatim>\<open>' '..'~'\<close>
  escaped (the short escapes for backspace, form feed, newline, carriage return and tab,
  four lower-case hexadecimal digits after \<^verbatim>\<open>\u\<close> otherwise); an empty list is \<^verbatim>\<open>[]\<close> and
  an empty dict \<^verbatim>\<open>{}\<close>; the items of a non-empty one stand on lines of their own, two
  spaces deeper than the bracket, separated by a comma, a key and its value by
  \<^verbatim>\<open>": "\<close>; the keys come in the order of the dict. The limits of the interpreter (the
  recursion depth, the number of digits of an integer it agrees to print or read) are
  not modelled.
\<close>

definition hex_digit :: "nat \<Rightarrow> char" where
  "hex_digit d = ''0123456789abcdef'' ! d"

definition escape_char :: "char \<Rightarrow> string" where
  "escape_char c =
     (if c = CHR 0x22 then [CHR 0x5C, CHR 0x22]
      else if c = CHR 0x5C then [CHR 0x5C, CHR 0x5C]
      else if c = CHR 0x0A then [CHR 0x5C, CHR ''n'']
      else if c = CHR 0x0D then [CHR 0x5C, CHR ''r'']
      else if c = CHR 0x09 then [CHR 0x5C, CHR ''t'']
      else if c = CHR 0x08 then [CHR 0x5C, CHR ''b'']
      else if c = CHR 0x0C then [CHR 0x5C, CHR ''f'']
      else if (of_char c :: nat) < 32 \<or> 127 \<le> (of_char c :: nat)
      then [CHR 0x5C, CHR ''u'', CHR ''0'', CHR ''0'',
            hex_digit ((of_char c :: nat) div 16), hex_digit ((of_char c :: nat) mod 16)]
      else [c])"

definition encode_string :: "string \<Rightarrow> string" where
  "encode_string s = CHR 0x22 # concat (map escape_char s) @ [CHR 0x22]"

definition newline_indent :: "nat \<Rightarrow> string" where
  "newline_indent level = CHR 0x0A # replicate (2 * level) CHR '' ''"

fun dumps :: "nat \<Rightarrow> json \<Rightarrow> string" where
  "dumps level JNull = ''null''"
| "dumps level (JBool b) = (if b then ''true'' else ''false'')"
| "dumps level (JInt n) = show_int n"
| "dumps level (JStr s) = encode_string s"
| "dumps level (JArr xs) =
     (if xs = [] then ''[]''
      else ''['' @ newline_indent (Suc level)
           @ join ('','' @ newline_indent (Suc level)) (map (dumps (Suc level)) xs)
           @ newline_indent level @ '']'')"
| "dumps level (JObj kvs) =
     (if kvs = [] then ''{}''
      else ''{'' @ newline_indent (Suc level)
           @ join ('','' @ newline_indent (Suc level))
               (map (\<lambda>kv. encode_string (fst kv) @ '': '' @ dumps (Suc level) (snd kv)) kvs)
           @ newline_indent level @ ''}'')"

subsection \<open>Reading JSON text\<close>

















subsection \<open>Saving and loading\<close>

text \<open>
  The files: a table from paths to the text of the file there. \<^verbatim>\<open>_save_file\<close> returns at
  once without a chapter; without a path it hands over to the file chooser of
  \<^verbatim>\<open>_save_as\<close>, which is not modelled (the table stays as it is). Otherwise it flushes
  the active editor, and an exception of \<^verbatim>\<open>_flush\<close> leaves it. Then, inside \<^verbatim>\<open>try\<close>, it
  writes the chapter and a newline, clears the dirty flag and updates the title; when
  the file cannot be opened for writing (\<open>writable\<close> is false) the exception is caught
  and only reported, and so is one of \<^verbatim>\<open>_update_title\<close>.
\<close>

type_synonym disk = "string \<rightharpoonup> string"

definition save_file :: "bool \<Rightarrow> window \<Rightarrow> disk \<Rightarrow> error option \<times> window \<times> disk" where
  "save_file writable w files =
     (if \<not> truthy (chapter_doc w) then (None, w, files)
      else if (case filepath w of None \<Rightarrow> True | Some p \<Rightarrow> p = []) then (None, w, files)
      else (case flush w of
              (Some e, w') \<Rightarrow> (Some e, w', files)
            | (None, w') \<Rightarrow>
                (case filepath w' of
                   None \<Rightarrow> (None, w', files)
                 | Some p \<Rightarrow>
                     if writable
                     then (None, w'\<lparr>dirty := False\<rparr>,
                           files(p \<mapsto> dumps 0 (chapter_doc w') @ [CHR 0x0A]))
                     else (None, w', files))))"


section \<open>The development server\<close>

text \<open>
  \<^verbatim>\<open>DevHandler\<close> of \<^verbatim>\<open>dev_server.py\<close>. The file system is a table from resolved absolute
  paths to what is there; it has no symbolic links, so that \<^verbatim>\<open>Path.resolve\<close> only makes
  the path absolute and normal: empty and \<^verbatim>\<open>.\<close> components go, a \<^verbatim>\<open>..\<close> component
  removes the one before it. A path with a NUL character cannot be resolved
  (\<^verbatim>\<open>ValueError\<close>). The project root is a parameter. The request is given by the path
  that \<^verbatim>\<open>urlparse\<close> found in it.
\<close>

datatype node = File string | Unreadable_file | Directory

datatype response = Send_error nat | Send_content string | Patched_index | Web_build

definition starts_with :: "string \<Rightarrow> string \<Rightarrow> bool" where
  "starts_with s p = (take (length p) s = p)"

fun normal_components :: "string list \<Rightarrow> string list \<Rightarrow> string list" where
  "normal_components [] acc = rev acc"
| "normal_components (c # cs) acc =
     (if c = [] \<or> c = ''.'' then normal_components cs acc
      else if c = ''..'' then normal_components cs (tl acc)
      else normal_components cs (c # acc))"

definition resolve :: "string \<Rightarrow> error + string" where
  "resolve p =
     (if CHR 0x00 \<in> set p then Inl ValueError
      else (case normal_components (split_on CHR ''/'' p) [] of
              [] \<Rightarrow> Inr ''/''
            | cs \<Rightarrow> Inr (concat (map (\<lambda>c. CHR ''/'' # c) cs))))"

text \<open>\<^verbatim>\<open>_serve_data_file\<close>.\<close>

definition serve_data_file :: "string \<Rightarrow> (string \<Rightarrow> node option) \<Rightarrow> string \<Rightarrow> response" where
  "serve_data_file project_root fs url_path =
     (let rel_path = dropWhile (\<lambda>c. c = CHR ''/'') url_path;
          file_path = project_root @ ''/'' @ rel_path
      in case resolve file_path of Inl e \<Rightarrow> Send_error 400 | Inr resolved \<Rightarrow>
           (case resolve (project_root @ ''/data'') of Inl e \<Rightarrow> Send_error 400 | Inr data_dir \<Rightarrow>
              (if \<not> starts_with resolved data_dir then Send_error 403
               else (case fs resolved of
                       Some (File content) \<Rightarrow> Send_content content
                     | Some Unreadable_file \<Rightarrow> Send_error 500
                     | _ \<Rightarrow> Send_error 404))))"

text \<open>
  \<^verbatim>\<open>do_GET\<close>: the two other branches hand the request to code that is not modelled.
\<close>

definition do_GET ::
  "string \<Rightarrow> (string \<Rightarrow> node option) \<Rightarrow> string \<Rightarrow> string \<Rightarrow> response" where
  "do_GET project_root fs config_script url_path =
     (if starts_with url_path ''/data/'' then serve_data_file project_root fs url_path
      else if config_script \<noteq> [] \<and> (url_path = ''/'' \<or> url_path = ''/index.html'')
      then Patched_index
      else Web_build)"

text \<open>
  A resolved path is inside a directory when it is the directory or continues it after
  a separator.
\<close>

definition inside :: "string \<Rightarrow> string \<Rightarrow> bool" where
  "inside dir p = (p = dir \<or> starts_with p (dir @ ''/''))"

text \<open>
  A project with a directory \<^verbatim>\<open>data_private\<close> beside \<^verbatim>\<open>data\<close>, holding one file.
\<close>

definition sibling_fs :: "string \<Rightarrow> node option" where
  "sibling_fs p =
     (if p = ''/proj/data_private/secret.json'' then Some (File ''secret'')
      else if p = ''/proj/data_private'' \<or> p = ''/proj/data'' \<or> p = ''/proj'' then Some Directory
      else None)"

section \<open>Vocabulary of the statements\<close>

text \<open>
  A chapter document is a dict that holds a list under \<^verbatim>\<open>"steps"\<close>; \<open>steps_of\<close> reads
  that list (and is empty for anything else). The pointer invariant of the data model:
  the index of the active step is \<open>-1\<close> or a position of the list.
\<close>

definition steps_of :: "json \<Rightarrow> json list" where
  "steps_of c =
     (case c of JObj kvs \<Rightarrow> (case map_of kvs ''steps'' of Some (JArr xs) \<Rightarrow> xs | _ \<Rightarrow> [])
      | _ \<Rightarrow> [])"

definition is_document :: "json \<Rightarrow> bool" where
  "is_document c =
     (case c of JObj kvs \<Rightarrow> (case map_of kvs ''steps'' of Some (JArr xs) \<Rightarrow> True | _ \<Rightarrow> False)
      | _ \<Rightarrow> False)"

definition ptr_ok :: "window \<Rightarrow> bool" where
  "ptr_ok w =
     (current_idx w = - 1 \<or>
      (0 \<le> current_idx w \<and> current_idx w < int (length (steps_of (chapter_doc w)))))"



subsection \<open>The documents of the scenarios\<close>

text \<open>
  The chapter of the specification's scenario: chapter 1, one puzzle step
  \<^verbatim>\<open>ch1_p01\<close>; the window right after that file was loaded; the same window with the
  step selected for deletion; and a chapter of a dialog step and a puzzle step whose
  dialog step is active and flushed.
\<close>

definition scenario_puzzle :: json where
  "scenario_puzzle =
     JObj [(''type'', JStr ''puzzle''), (''id'', JStr ''ch1_p01''), (''board'', empty_board),
           (''win_condition'', JObj [(''type'', JStr ''capture_chief''), (''max_moves'', JInt 1)]),
           (''player'', JStr ''white''), (''opponent_moves'', JArr [])]"

definition scenario_chapter :: json where
  "scenario_chapter =
     JObj [(''chapter'', JInt 1), (''title'', JStr ''T''), (''steps'', JArr [scenario_puzzle])]"

definition scenario_window :: window where
  "scenario_window =
     init_window\<lparr>chapter_doc := scenario_chapter, filepath := Some ''chapter_1.json''\<rparr>"

definition two_step_window :: window where
  "two_step_window =
     init_window\<lparr>
       chapter_doc :=
         JObj [(''chapter'', JInt 1), (''title'', JStr ''T''),
               (''steps'', JArr [new_dialog_step, scenario_puzzle])],
       filepath := Some ''chapter_1.json'',
       current_idx := 0,
       dialog_lines :=
         JArr [JObj [(''speaker'', JNull), (''portrait'', JNull), (''text'', JStr [])]],
       visible_child := ''dialog''\<rparr>"

text \<open>
  A chapter of two complete puzzle steps, in the window after its file was loaded and
  its first step was selected in the step list.
\<close>

definition first_puzzle :: json where
  "first_puzzle = JObj [
     (''type'', JStr ''puzzle''), (''id'', JStr ''ch1_p01''), (''title'', JStr ''First''),
     (''description'', JStr []), (''player'', JStr ''white''), (''hint'', JStr []),
     (''board'', empty_board),
     (''win_condition'', JObj [(''type'', JStr ''capture_chief''), (''max_moves'', JInt 1)]),
     (''opponent_moves'', JArr [])]"

definition second_puzzle :: json where
  "second_puzzle = JObj [
     (''type'', JStr ''puzzle''), (''id'', JStr ''ch1_p02''), (''title'', JStr ''Second''),
     (''description'', JStr []), (''player'', JStr ''black''), (''hint'', JStr []),
     (''board'', empty_board),
     (''win_condition'', JObj [(''type'', JStr ''cross_piece''), (''max_moves'', JInt 3)]),
     (''opponent_moves'', JArr [JStr ''Kd1''])]"

definition two_puzzle_window :: window where
  "two_puzzle_window =
     snd (on_row_selected 0
       (init_window\<lparr>
          chapter_doc := JObj [(''chapter'', JInt 1), (''title'', JStr ''T''),
                               (''steps'', JArr [first_puzzle, second_puzzle])],
          filepath := Some ''chapter_1.json''\<rparr>))"

subsection \<open>The widgets of the puzzle editor\<close>

text \<open>
  What the widgets guarantee of the state of the puzzle editor: the spin button keeps its
  value between the bounds of its adjustment (\<^verbatim>\<open>lower=1, upper=20\<close>), and the board of
  the grid is never empty, since \<^verbatim>\<open>set_board\<close> puts an empty board in the place of one.
  The editor starts in such a state, and \<^verbatim>\<open>set_step\<close> and \<^verbatim>\<open>_place\<close> keep it there.
\<close>

definition widgets_ok :: "puzzle_editor \<Rightarrow> bool" where
  "widgets_ok p = (1 \<le> max_moves_spin p \<and> max_moves_spin p \<le> 20 \<and> truthy (board p))"

subsection \<open>Boards\<close>

text \<open>
  A board is a list of five rows of five cells each; \<open>cell_at\<close> reads a cell of a board
  by position.
\<close>

definition is_board :: "json \<Rightarrow> bool" where
  "is_board b =
     (case b of
        JArr rows \<Rightarrow>
          length rows = BOARD_SIZE
          \<and> list_all (\<lambda>r. case r of JArr cells \<Rightarrow> length cells = BOARD_SIZE | _ \<Rightarrow> False) rows
      | _ \<Rightarrow> False)"

definition cell_at :: "json \<Rightarrow> nat \<Rightarrow> nat \<Rightarrow> json" where
  "cell_at b r c =
     (case b of
        JArr rows \<Rightarrow> (case rows ! r of JArr cells \<Rightarrow> cells ! c | _ \<Rightarrow> JNull)
      | _ \<Rightarrow> JNull)"

definition white_chief :: json where
  "white_chief = JObj [(''type'', JStr ''CHIEF''), (''player'', JStr ''white'')]"

subsection \<open>Values and texts\<close>






section \<open>Lemmas about the operations\<close>

lemma map_of_dict_set: "map_of (dict_set kvs k v) = (map_of kvs)(k \<mapsto> v)"
  by (induction kvs) (auto simp: fun_eq_iff)


lemma show_step_chapter: "chapter_doc (snd (show_step step w)) = chapter_doc w"
  by (auto simp: show_step_def dialog_set_step_def split: sum.splits prod.splits option.splits)

lemma show_step_idx: "current_idx (snd (show_step step w)) = current_idx w"
  by (auto simp: show_step_def dialog_set_step_def split: sum.splits prod.splits option.splits)

lemma mark_dirty_chapter: "chapter_doc (snd (mark_dirty w)) = chapter_doc w"
  by (simp add: mark_dirty_def)

lemma mark_dirty_idx: "current_idx (snd (mark_dirty w)) = current_idx w"
  by (simp add: mark_dirty_def)

lemma delete_step_noop:
  assumes "is_document (chapter_doc w)"
    and "current_idx w < 0 \<or> current_idx w \<ge> int (length (steps_of (chapter_doc w)))"
  shows "delete_step w = (None, w)"
  using assms
  by (auto simp: delete_step_def is_document_def steps_of_def split: json.splits option.splits)

lemma steps_of_store: "steps_of (JObj (dict_set kvs ''steps'' (JArr xs))) = xs"
  by (simp add: steps_of_def map_of_dict_set)

lemma flush_idx: "current_idx (snd (flush w)) = current_idx w"
  by (auto simp: flush_def split: sum.splits json.splits)

lemma flush_len: "length (steps_of (chapter_doc (snd (flush w)))) = length (steps_of (chapter_doc w))"
  by (auto simp: flush_def steps_of_def map_of_dict_set split: sum.splits json.splits option.splits)

lemma flush_ptr: "ptr_ok w \<Longrightarrow> ptr_ok (snd (flush w))"
  by (simp add: ptr_ok_def flush_idx flush_len)

lemma show_step_ptr: "ptr_ok (snd (show_step step w)) = ptr_ok w"
  by (simp add: ptr_ok_def show_step_chapter show_step_idx)

lemma mark_dirty_ptr: "ptr_ok (snd (mark_dirty w)) = ptr_ok w"
  by (simp add: ptr_ok_def mark_dirty_chapter mark_dirty_idx)

lemma length_list_insert: "length (list_insert xs i x) = Suc (length xs)"
  by (simp add: list_insert_def)

lemma steps_of_setdefault_absent:
  "map_of kvs ''steps'' = None \<Longrightarrow> steps_of (JObj (kvs @ [(''steps'', JArr [])])) = []"
  by (simp add: steps_of_def map_add_def)

lemma run2_ptr:
  assumes "\<And>w. ptr_ok w \<Longrightarrow> ptr_ok (snd (f w))" "\<And>w. ptr_ok w \<Longrightarrow> ptr_ok (snd (g w))" "ptr_ok w"
  shows "ptr_ok (snd (run [f, g] w))"
proof (cases "f w")
  case (Pair e w')
  then have "ptr_ok w'" using assms(1)[OF assms(3)] by simp
  then show ?thesis using Pair assms(2)[of w'] by (cases e) (auto split: prod.splits option.splits)
qed

lemma dict_set_same: "map_of kvs k = Some v \<Longrightarrow> dict_set kvs k v = kvs"
  by (induction kvs) (auto split: if_splits)

lemma dict_set_twice: "dict_set (dict_set kvs k v) k v' = dict_set kvs k v'"
  by (induction kvs) auto

lemma dict_set_inject:
  "map_of kvs k = Some v0 \<Longrightarrow> dict_set kvs k v = kvs \<Longrightarrow> v = v0"
  by (metis map_of_dict_set fun_upd_same option.inject)

lemma list_index_nat: "0 \<le> i \<Longrightarrow> i < int (length xs) \<Longrightarrow> list_index xs i = Inr (nat i)"
  by (simp add: list_index_def)

text \<open>\<open>flush\<close> on a document with an active step.\<close>

lemma flush_document:
  assumes "chapter_doc w = JObj kvs" "map_of kvs ''steps'' = Some (JArr xs)"
    and "0 \<le> current_idx w" "current_idx w < int (length xs)"
  shows "flush w =
     (case py_get (xs ! nat (current_idx w)) ''type'' JNull of Inl e \<Rightarrow> (Some e, w)
      | Inr stype \<Rightarrow>
         (if stype = JStr ''puzzle'' then
            (case puzzle_get_step_data (puzzle_ed w) of Inl e \<Rightarrow> (Some e, w)
             | Inr d \<Rightarrow> (None, w\<lparr>chapter_doc :=
                  JObj (dict_set kvs ''steps'' (JArr (xs[nat (current_idx w) := d])))\<rparr>))
          else if stype = JStr ''dialog'' then
            (None, w\<lparr>chapter_doc := JObj (dict_set kvs ''steps''
               (JArr (xs[nat (current_idx w) := dialog_get_step_data (dialog_lines w)])))\<rparr>)
          else (None, w)))"
proof -
  have "kvs \<noteq> []" using assms(2) by auto
  then show ?thesis
    using assms by (simp add: flush_def list_index_nat split: sum.splits)
qed

lemma move_step_body_noop:
  assumes "is_document (chapter_doc w)"
    and "\<not> (0 \<le> current_idx w + d \<and> current_idx w + d < int (length (steps_of (chapter_doc w))))"
  shows "move_step_body d w = (None, w)"
  using assms
  by (auto simp: move_step_body_def is_document_def steps_of_def Let_def
        split: json.splits option.splits)

lemma window_chapter_same: "w\<lparr>chapter_doc := c\<rparr> = w \<Longrightarrow> chapter_doc w = c"
  by (metis window.select_convs(1) window.surjective window.update_convs(1))

lemma run_one: "run [f] s = f s"
  by (cases "f s") (auto split: option.splits)

lemma run_two: "f s = (None, s') \<Longrightarrow> run [f, g] s = g s'"
  by (subst run.simps(2)) (simp add: run_one del: run.simps)

lemma is_document_obtain:
  assumes "is_document c"
  obtains kvs xs where "c = JObj kvs" "map_of kvs ''steps'' = Some (JArr xs)"
proof (cases c)
  case (JObj kvs)
  then show ?thesis using assms that
    by (cases "map_of kvs ''steps''") (auto simp: is_document_def split: json.splits)
qed (use assms in \<open>auto simp: is_document_def\<close>)

lemma flush_sync_transfer:
  assumes sync: "flush w = (None, w)"
    and c: "chapter_doc w = JObj kvs" and m: "map_of kvs ''steps'' = Some (JArr xs)"
    and lo: "0 \<le> current_idx w" and hi: "current_idx w < int (length xs)"
    and c2: "chapter_doc w2 = JObj kvs2" and m2: "map_of kvs2 ''steps'' = Some (JArr xs2)"
    and lo2: "0 \<le> current_idx w2" and hi2: "current_idx w2 < int (length xs2)"
    and same: "xs2 ! nat (current_idx w2) = xs ! nat (current_idx w)"
    and ed: "puzzle_ed w2 = puzzle_ed w" "dialog_lines w2 = dialog_lines w"
  shows "flush w2 = (None, w2)"
proof -
  note f1 = flush_document[OF c m lo hi]
  note f2 = flush_document[OF c2 m2 lo2 hi2]
  have upd: "d = xs ! nat (current_idx w) \<Longrightarrow>
             w2\<lparr>chapter_doc := JObj (dict_set kvs2 ''steps'' (JArr (xs2[nat (current_idx w2) := d])))\<rparr> = w2"
    for d
  proof -
    assume "d = xs ! nat (current_idx w)"
    then have "xs2[nat (current_idx w2) := d] = xs2" using same by (metis list_update_id)
    then have "JObj (dict_set kvs2 ''steps'' (JArr (xs2[nat (current_idx w2) := d]))) = chapter_doc w2"
      using c2 m2 by (simp add: dict_set_same)
    then show ?thesis by simp
  qed
  have inj: "w\<lparr>chapter_doc := JObj (dict_set kvs ''steps'' (JArr (xs[nat (current_idx w) := d])))\<rparr> = w
             \<Longrightarrow> d = xs ! nat (current_idx w)" for d
  proof -
    assume "w\<lparr>chapter_doc := JObj (dict_set kvs ''steps'' (JArr (xs[nat (current_idx w) := d])))\<rparr> = w"
    then have "JObj kvs = JObj (dict_set kvs ''steps'' (JArr (xs[nat (current_idx w) := d])))"
      using c window_chapter_same by metis
    then have "dict_set kvs ''steps'' (JArr (xs[nat (current_idx w) := d])) = kvs" by simp
    then have "JArr (xs[nat (current_idx w) := d]) = JArr xs" using m dict_set_inject by blast
    then have "xs[nat (current_idx w) := d] = xs" by simp
    then have "xs[nat (current_idx w) := d] ! nat (current_idx w) = xs ! nat (current_idx w)" by simp
    then show ?thesis using lo hi by simp
  qed
  show ?thesis
  proof (cases "py_get (xs ! nat (current_idx w)) ''type'' JNull")
    case (Inl e)
    then show ?thesis using sync f1 by simp
  next
    case (Inr stype)
    show ?thesis
    proof (cases "stype = JStr ''puzzle''")
      case True
      show ?thesis
      proof (cases "puzzle_get_step_data (puzzle_ed w)")
        case (Inl e)
        then show ?thesis using sync f1 Inr True by simp
      next
        case (Inr d)
        then have "d = xs ! nat (current_idx w)"
          using sync f1 \<open>py_get (xs ! nat (current_idx w)) ''type'' JNull = Inr stype\<close> True inj
          by simp
        then show ?thesis
          using f2 same ed Inr True \<open>py_get (xs ! nat (current_idx w)) ''type'' JNull = Inr stype\<close> upd
          by simp
      qed
    next
      case False
      show ?thesis
      proof (cases "stype = JStr ''dialog''")
        case True
        then have "dialog_get_step_data (dialog_lines w) = xs ! nat (current_idx w)"
          using sync f1 Inr inj by simp
        then show ?thesis using f2 same ed Inr True upd by simp
      next
        case nd: False
        then show ?thesis using f2 same Inr False by simp
      qed
    qed
  qed
qed

lemma swap_back:
  assumes "i < length xs" "j < length xs"
  shows "((xs[i := xs ! j, j := xs ! i])[j := (xs[i := xs ! j, j := xs ! i]) ! i,
            i := (xs[i := xs ! j, j := xs ! i]) ! j]) = xs"
  using assms by (auto simp: list_eq_iff_nth_eq nth_list_update)

lemma move_step_noop:
  assumes doc: "is_document (chapter_doc w)" and sync: "flush w = (None, w)"
    and "\<not> (0 \<le> current_idx w + d \<and> current_idx w + d < int (length (steps_of (chapter_doc w))))"
  shows "move_step d w = (None, w)"
  using assms move_step_body_noop[of w d] run_two[of flush w w, OF sync] by (simp add: move_step_def del: run.simps)










section \<open>Lemmas about strings, the board and the dialog editor\<close>

lemma isspace_not_comma: "isspace c \<Longrightarrow> c \<noteq> CHR '',''"
  by (auto simp: isspace_def Let_def)

lemma split_on_not_Nil: "split_on sep s \<noteq> []"
  by (induction s) (auto split: list.splits)

lemma split_on_prepend:
  assumes "\<forall>c \<in> set a. c \<noteq> sep"
  shows "split_on sep (a @ t) = (a @ hd (split_on sep t)) # tl (split_on sep t)"
  using assms
proof (induction a)
  case Nil
  then show ?case using split_on_not_Nil[of sep t] by simp
next
  case (Cons c a)
  then show ?case by simp
qed

lemma split_on_append:
  assumes "\<forall>c \<in> set b. c \<noteq> sep"
  shows "split_on sep (t @ b) = butlast (split_on sep t) @ [last (split_on sep t) @ b]"
proof (induction t)
  case Nil
  show ?case using split_on_prepend[OF assms, of "[]"] by simp
next
  case (Cons c t)
  show ?case
  proof (cases "c = sep")
    case True
    then show ?thesis using Cons split_on_not_Nil[of sep t] by simp
  next
    case False
    obtain w ws where s: "split_on sep t = w # ws"
      using split_on_not_Nil[of sep t] by (cases "split_on sep t") auto
    show ?thesis using False Cons s by (cases ws) auto
  qed
qed

lemma dropWhile_spaces: "\<forall>c \<in> set a. isspace c \<Longrightarrow> dropWhile isspace (a @ s) = dropWhile isspace s"
  by (induction a) auto

lemma strip_Nil: "strip [] = []"
  by (simp add: strip_def)

lemma strip_prepend: "\<forall>c \<in> set a. isspace c \<Longrightarrow> strip (a @ s) = strip s"
  by (simp add: strip_def dropWhile_spaces)

lemma strip_append: "\<forall>c \<in> set b. isspace c \<Longrightarrow> strip (s @ b) = strip s"
proof -
  assume b: "\<forall>c \<in> set b. isspace c"
  show ?thesis
  proof (cases "\<forall>c \<in> set s. isspace c")
    case True
    then have "dropWhile isspace (s @ b) = []" "dropWhile isspace s = []"
      using b by (auto simp only: dropWhile_eq_Nil_conv set_append)
    then show ?thesis by (simp only: strip_def rev.simps dropWhile.simps)
  next
    case False
    then have "dropWhile isspace (s @ b) = dropWhile isspace s @ b"
      by (metis dropWhile_append1)
    moreover have "dropWhile isspace (rev b @ r) = dropWhile isspace r" for r
      using b by (simp add: dropWhile_spaces)
    ultimately show ?thesis by (simp add: strip_def)
  qed
qed

lemma strip_decompose:
  obtains a b where "t = a @ strip t @ b" "\<forall>c \<in> set a. isspace c" "\<forall>c \<in> set b. isspace c"
proof -
  define a where "a = takeWhile isspace t"
  define r where "r = dropWhile isspace t"
  define b where "b = rev (takeWhile isspace (rev r))"
  have "t = a @ r" by (simp add: a_def r_def)
  moreover have "rev r = takeWhile isspace (rev r) @ dropWhile isspace (rev r)" by simp
  then have "r = strip t @ b"
    unfolding strip_def b_def r_def by (metis rev_append rev_rev_ident)
  moreover have "\<forall>c \<in> set a. isspace c" unfolding a_def by (meson set_takeWhileD)
  moreover have "\<forall>c \<in> set b. isspace c" unfolding b_def by (auto dest: set_takeWhileD)
  ultimately show ?thesis using that by blast
qed

lemma map_strip_split:
  "map strip (split_on CHR '','' (strip t)) = map strip (split_on CHR '','' t)"
proof -
  obtain a b where t: "t = a @ strip t @ b" and a: "\<forall>c \<in> set a. isspace c"
    and b: "\<forall>c \<in> set b. isspace c"
    by (rule strip_decompose)
  have a': "\<forall>c \<in> set a. c \<noteq> CHR '',''" and b': "\<forall>c \<in> set b. c \<noteq> CHR '',''"
    using a b isspace_not_comma by blast+
  define m where "m = strip t"
  define S where "S = split_on CHR '','' m"
  define S' where "S' = split_on CHR '','' (m @ b)"
  have S: "S \<noteq> []" and S'n: "S' \<noteq> []" by (simp_all add: S_def S'_def split_on_not_Nil)
  have 1: "S' = butlast S @ [last S @ b]"
    unfolding S'_def S_def by (rule split_on_append[OF b'])
  have "map strip S' = map strip (butlast S) @ [strip (last S)]"
    using 1 strip_append[OF b] by simp
  also have "\<dots> = map strip (butlast S @ [last S])" by simp
  also have "\<dots> = map strip S" using S by simp
  finally have 2: "map strip S' = map strip S" .
  have "split_on CHR '','' (a @ m @ b) = (a @ hd S') # tl S'"
    unfolding S'_def by (rule split_on_prepend[OF a'])
  then have "map strip (split_on CHR '','' (a @ m @ b)) = strip (hd S') # map strip (tl S')"
    using strip_prepend[OF a] by simp
  also have "\<dots> = map strip S'" using S'n by (cases S') auto
  finally show ?thesis using 2 t unfolding m_def S_def by simp
qed

lemma opponent_moves_refines:
  "opponent_moves t = filter (\<lambda>m. m \<noteq> []) (map strip (split_on CHR '','' t))"
proof (cases "strip t = []")
  case True
  have "map strip (split_on CHR '','' t) = map strip (split_on CHR '','' (strip t))"
    by (simp add: map_strip_split)
  also have "\<dots> = [[]]" by (simp add: True strip_Nil)
  finally show ?thesis using True by (simp add: opponent_moves_def)
next
  case False
  have "opponent_moves t = map strip (filter (\<lambda>m. strip m \<noteq> []) (split_on CHR '','' (strip t)))"
    using False by (simp add: opponent_moves_def)
  also have "\<dots> = filter (\<lambda>m. m \<noteq> []) (map strip (split_on CHR '','' (strip t)))"
    by (simp add: filter_map comp_def)
  finally show ?thesis by (simp add: map_strip_split)
qed

lemma is_board_obtain:
  assumes "is_board b"
  obtains rows where "b = JArr rows" "length rows = 5"
    "\<forall>r<5. \<exists>cells. rows ! r = JArr cells \<and> length cells = 5"
proof (cases b)
  case (JArr rows)
  have l: "length rows = 5" using assms JArr by (simp add: is_board_def BOARD_SIZE_def)
  have "\<exists>cells. rows ! r = JArr cells \<and> length cells = 5" if "r < 5" for r
  proof -
    have "case rows ! r of JArr cells \<Rightarrow> length cells = BOARD_SIZE | _ \<Rightarrow> False"
      using assms JArr l that by (simp add: is_board_def list_all_length)
    then show ?thesis by (cases "rows ! r") (auto simp: BOARD_SIZE_def)
  qed
  then show ?thesis using that JArr l by blast
qed (use assms in \<open>auto simp: is_board_def\<close>)

lemma is_board_intro:
  assumes "length rows = 5" "\<forall>r<5. \<exists>cells. rows ! r = JArr cells \<and> length cells = 5"
  shows "is_board (JArr rows)"
proof -
  have "case rows ! n of JArr cells \<Rightarrow> length cells = 5 | _ \<Rightarrow> False" if n5: "n < 5" for n
  proof -
    obtain cells where "rows ! n = JArr cells" "length cells = 5" using assms(2) n5 by blast
    then show ?thesis by simp
  qed
  then show ?thesis using assms(1) unfolding is_board_def BOARD_SIZE_def by (simp add: list_all_length)
qed

lemma place_cell_in_range:
  assumes b: "is_board b" and r: "0 \<le> row" "row < 5" and c: "0 \<le> col" "col < 5"
  obtains rows cells where "b = JArr rows" "rows ! nat row = JArr cells"
    "length rows = 5" "length cells = 5"
    "place_cell b row col piece = Inr (JArr (rows[nat row := JArr (cells[nat col := piece])]))"
proof -
  obtain rows where rows: "b = JArr rows" "length rows = 5"
    and each: "\<forall>r<5. \<exists>cells. rows ! r = JArr cells \<and> length cells = 5"
    using b by (rule is_board_obtain)
  have "nat row < 5" using r by simp
  then obtain cells where cells: "rows ! nat row = JArr cells" "length cells = 5"
    using each by blast
  have "place_cell b row col piece = Inr (JArr (rows[nat row := JArr (cells[nat col := piece])]))"
    using rows cells r c by (simp add: place_cell_def list_index_def)
  then show ?thesis using that rows cells by blast
qed

lemma place_cell_out_of_range:
  assumes b: "is_board b" and o: "5 \<le> row \<or> row < - 5 \<or> 5 \<le> col \<or> col < - 5"
  shows "place_cell b row col piece = Inl IndexError"
proof -
  obtain rows where rows: "b = JArr rows" "length rows = 5"
    and each: "\<forall>r<5. \<exists>cells. rows ! r = JArr cells \<and> length cells = 5"
    using b by (rule is_board_obtain)
  show ?thesis
  proof (cases "5 \<le> row \<or> row < - 5")
    case True
    then show ?thesis using rows by (auto simp: place_cell_def list_index_def)
  next
    case False
    define i where "i = (if row < 0 then nat (5 + row) else nat row)"
    have i: "i < 5" using False by (auto simp: i_def)
    obtain cells where cells: "rows ! i = JArr cells" "length cells = 5" using each i by blast
    have "py_getitem b row = Inr (JArr cells)"
      using rows cells False by (auto simp: list_index_def i_def)
    moreover have "list_index cells col = Inl IndexError"
      using o False cells by (auto simp: list_index_def)
    ultimately show ?thesis by (simp add: place_cell_def)
  qed
qed

lemma place_board:
  "place_cell (board (puzzle_ed w)) row col piece = Inr b'
   \<Longrightarrow> board (puzzle_ed (snd (place row col piece w))) = b'"
proof -
  assume a: "place_cell (board (puzzle_ed w)) row col piece = Inr b'"
  have "board (puzzle_ed (snd (run [
            (\<lambda>w. (refresh_exc (board (puzzle_ed w)), w)),
            (\<lambda>w. if \<not> loading (puzzle_ed w) then mark_dirty w else (None, w))] w0)))
        = board (puzzle_ed w0)" for w0
    by (auto simp: mark_dirty_def split: option.splits)
  then show ?thesis using a by (simp add: place_def del: run.simps)
qed

lemma place_set_cell_aux:
  assumes "is_board (board (puzzle_ed w))"
  shows "(0 \<le> row \<and> row < 5 \<and> 0 \<le> col \<and> col < 5 \<longrightarrow>
            is_board (board (puzzle_ed (snd (place row col piece w))))
            \<and> (\<forall>r<5. \<forall>c<5. cell_at (board (puzzle_ed (snd (place row col piece w)))) r c
                  = (if r = nat row \<and> c = nat col then piece
                     else cell_at (board (puzzle_ed w)) r c)))
       \<and> (5 \<le> row \<or> row < - 5 \<or> 5 \<le> col \<or> col < - 5 \<longrightarrow>
            place row col piece w = (Some IndexError, w))"
proof (intro conjI impI)
  assume o: "5 \<le> row \<or> row < - 5 \<or> 5 \<le> col \<or> col < - 5"
  show "place row col piece w = (Some IndexError, w)"
    using place_cell_out_of_range[OF assms o] by (simp add: place_def)
next
  assume r: "0 \<le> row \<and> row < 5 \<and> 0 \<le> col \<and> col < 5"
  obtain rows cells where rc: "board (puzzle_ed w) = JArr rows" "rows ! nat row = JArr cells"
    "length rows = 5" "length cells = 5"
    and p: "place_cell (board (puzzle_ed w)) row col piece
            = Inr (JArr (rows[nat row := JArr (cells[nat col := piece])]))"
    using place_cell_in_range[OF assms, of row col piece] r by blast
  have b': "board (puzzle_ed (snd (place row col piece w)))
             = JArr (rows[nat row := JArr (cells[nat col := piece])])"
    using place_board[OF p] .
  obtain rows0 where r0: "board (puzzle_ed w) = JArr rows0"
    and each0: "\<forall>r<5. \<exists>cells. rows0 ! r = JArr cells \<and> length cells = 5"
    using assms by (rule is_board_obtain)
  have each: "\<forall>r<5. \<exists>cells. rows ! r = JArr cells \<and> length cells = 5"
    using r0 each0 rc by simp
  show "is_board (board (puzzle_ed (snd (place row col piece w))))"
    unfolding b'
  proof (rule is_board_intro)
    show "length (rows[nat row := JArr (cells[nat col := piece])]) = 5" using rc by simp
    show "\<forall>r<5. \<exists>cs. rows[nat row := JArr (cells[nat col := piece])] ! r = JArr cs \<and> length cs = 5"
    proof (intro allI impI)
      fix q :: nat assume q: "q < 5"
      show "\<exists>cs. rows[nat row := JArr (cells[nat col := piece])] ! q = JArr cs \<and> length cs = 5"
      proof (cases "q = nat row")
        case True
        then show ?thesis using rc q by simp
      next
        case False
        then show ?thesis using each q by simp
      qed
    qed
  qed
  show "\<forall>r<5. \<forall>c<5. cell_at (board (puzzle_ed (snd (place row col piece w)))) r c
                  = (if r = nat row \<and> c = nat col then piece
                     else cell_at (board (puzzle_ed w)) r c)"
    unfolding b' using rc r by (auto simp: cell_at_def nth_list_update)
qed

lemma on_field_changed_blank:
  assumes "dialog_lines w = JArr ls" "idx < length ls" "ls ! idx = JObj kvs" "strip text = []"
  shows "dialog_get_step_data (dialog_lines (snd (on_field_changed text idx key w)))
         = JObj [(''type'', JStr ''dialog''),
                 (''lines'', JArr (ls[idx := JObj (dict_set kvs key JNull)]))]
       \<and> py_getkey (JObj (dict_set kvs key JNull)) key = Inr JNull"
proof -
  have "py_getkey (JObj (dict_set kvs key JNull)) key = Inr JNull"
    by (induction kvs) auto
  moreover have "dialog_lines (snd (mark_dirty w0)) = dialog_lines w0" for w0
    by (simp add: mark_dirty_def)
  ultimately show ?thesis
    using assms
    by (simp add: on_field_changed_def set_line_field_def field_value_def list_index_def
          dialog_get_step_data_def)
qed

section \<open>Lemmas about JSON texts and files\<close>































subsection \<open>Saving and loading\<close>








lemma save_file_no_chapter:
  "\<not> truthy (chapter_doc w) \<Longrightarrow> save_file writable w files = (None, w, files)"
  by (simp add: save_file_def)


section \<open>Lemmas about the operations and the handler of the step list\<close>

lemma run_invariant:
  assumes "\<And>f s. f \<in> set fs \<Longrightarrow> P s \<Longrightarrow> P (snd (f s))" and "P s"
  shows "P (snd (run fs s))"
  using assms
proof (induction fs arbitrary: s)
  case Nil
  then show ?case by simp
next
  case (Cons f fs)
  have a: "P (snd (f s))" using Cons.prems by simp
  show ?case
  proof (cases "f s")
    case (Pair e s')
    then show ?thesis using Cons a by (cases e) auto
  qed
qed

lemma on_row_selected_ptr:
  assumes "ptr_ok w" and "i < length (steps_of (chapter_doc w))"
  shows "ptr_ok (snd (on_row_selected i w))"
proof -
  define P where "P = (\<lambda>w'. ptr_ok w' \<and> length (steps_of (chapter_doc w')) = length (steps_of (chapter_doc w)))"
  have "P (snd (on_row_selected i w))"
    unfolding on_row_selected_def
  proof (rule run_invariant)
    show "P w" using assms by (simp add: P_def)
  next
    fix f s assume f: "f \<in> set [
       flush,
       (\<lambda>w. (None, w\<lparr>current_idx := int i\<rparr>)),
       (\<lambda>w. case py_get (chapter_doc w) ''steps'' (JArr []) of Inl e \<Rightarrow> (Some e, w) | Inr steps \<Rightarrow>
          (case py_len steps of Inl e \<Rightarrow> (Some e, w) | Inr n \<Rightarrow>
             (if 0 \<le> current_idx w \<and> current_idx w < int n
              then (case py_getitem steps (current_idx w) of
                      Inl e \<Rightarrow> (Some e, w) | Inr step \<Rightarrow> show_step step w)
              else (None, w))))]" and s: "P s"
    then consider "f = flush" | "f = (\<lambda>w. (None, w\<lparr>current_idx := int i\<rparr>))"
      | "f = (\<lambda>w. case py_get (chapter_doc w) ''steps'' (JArr []) of Inl e \<Rightarrow> (Some e, w) | Inr steps \<Rightarrow>
          (case py_len steps of Inl e \<Rightarrow> (Some e, w) | Inr n \<Rightarrow>
             (if 0 \<le> current_idx w \<and> current_idx w < int n
              then (case py_getitem steps (current_idx w) of
                      Inl e \<Rightarrow> (Some e, w) | Inr step \<Rightarrow> show_step step w)
              else (None, w))))" by auto
    then show "P (snd (f s))"
    proof cases
      case 1
      then show ?thesis using s by (simp add: P_def flush_ptr flush_len)
    next
      case 2
      then show ?thesis using s assms(2) by (simp add: P_def ptr_ok_def)
    next
      case 3
      then show ?thesis using s
        by (auto simp: P_def show_step_ptr show_step_chapter split: sum.splits)
    qed
  qed
  then show ?thesis by (simp add: P_def)
qed

lemma rebuild_ptr:
  assumes "ptr_ok w"
  shows "ptr_ok (snd (rebuild_step_list b w))"
proof (cases "rebuild_step_list_exc w = None \<and> truthy (chapter_doc w) \<and> b \<and> 0 \<le> current_idx w")
  case False
  then show ?thesis using assms
    by (auto simp: rebuild_step_list_def split: option.splits)
next
  case True
  then have lo: "0 \<le> current_idx w" by simp
  with assms have hi: "current_idx w < int (length (steps_of (chapter_doc w)))"
    by (auto simp: ptr_ok_def)
  then have "steps_of (chapter_doc w) \<noteq> []" using lo by auto
  then obtain kvs xs where c: "chapter_doc w = JObj kvs" and m: "map_of kvs ''steps'' = Some (JArr xs)"
    by (auto simp: steps_of_def split: json.splits option.splits)
  have s: "steps_of (chapter_doc w) = xs" using c m by (simp add: steps_of_def)
  have idx: "min (current_idx w) (int (length xs) - 1) = current_idx w" using hi s by simp
  have "rebuild_step_list b w = (None, snd (on_row_selected (nat (current_idx w)) w))"
    using True c m lo by (simp add: rebuild_step_list_def idx Let_def)
  moreover have "ptr_ok (snd (on_row_selected (nat (current_idx w)) w))"
    using assms lo hi by (intro on_row_selected_ptr) auto
  ultimately show ?thesis by simp
qed

lemma add_block_ptr:
  "ptr_ok w \<Longrightarrow> ptr_ok (snd (run [rebuild_step_list True, show_step st, mark_dirty] w))"
  by (rule run_invariant) (auto simp: rebuild_ptr show_step_ptr mark_dirty_ptr)

lemma add_step_body_ptr:
  assumes "ptr_ok w"
  shows "ptr_ok (snd (add_step_body t w))"
proof (cases "chapter_doc w")
  case (JObj kvs)
  show ?thesis
  proof (cases "map_of kvs ''steps''")
    case None
    then have cur: "current_idx w = - 1"
      using assms JObj by (auto simp: ptr_ok_def steps_of_def)
    show ?thesis
      unfolding add_step_body_def
      using JObj None cur
      by (auto simp: dict_setdefault_def Let_def
          simp del: run.simps split: sum.splits intro!: add_block_ptr)
         (auto simp: ptr_ok_def steps_of_store steps_of_setdefault_absent length_list_insert)
  next
    case (Some steps)
    show ?thesis
    proof (cases steps)
      case (JArr xs)
      have s: "steps_of (chapter_doc w) = xs" using JObj Some JArr by (simp add: steps_of_def)
      show ?thesis
        unfolding add_step_body_def
        using JObj Some JArr assms s
        by (auto simp: dict_setdefault_def Let_def
            simp del: run.simps split: sum.splits intro!: add_block_ptr)
           (auto simp: ptr_ok_def steps_of_store length_list_insert)
    qed (use JObj Some assms in
          \<open>auto simp: add_step_body_def dict_setdefault_def Let_def ptr_ok_def steps_of_def
             split: sum.splits\<close>)
  qed
qed (use assms in \<open>auto simp: add_step_body_def\<close>)

lemma add_step_ptr: "ptr_ok w \<Longrightarrow> ptr_ok (snd (add_step t w))"
  unfolding add_step_def
  by (auto intro!: run2_ptr flush_ptr add_step_body_ptr simp del: run.simps)

lemma visible_child_ptr: "ptr_ok (w\<lparr>visible_child := v\<rparr>) = ptr_ok w"
  by (simp add: ptr_ok_def)

lemma delete_block_ptr:
  "ptr_ok w \<Longrightarrow>
   ptr_ok (snd (run [
     rebuild_step_list True,
     (\<lambda>w. if current_idx w \<ge> 0
          then (case py_get (chapter_doc w) ''steps'' (JArr []) of
                  Inl e \<Rightarrow> (Some e, w)
                | Inr steps' \<Rightarrow>
                    (case py_getitem steps' (current_idx w) of
                       Inl e \<Rightarrow> (Some e, w) | Inr step \<Rightarrow> show_step step w))
          else (None, w\<lparr>visible_child := ''placeholder''\<rparr>)),
     mark_dirty] w))"
  by (rule run_invariant)
     (auto simp: rebuild_ptr show_step_ptr mark_dirty_ptr visible_child_ptr split: sum.splits)

lemma delete_step_ptr:
  assumes "ptr_ok w"
  shows "ptr_ok (snd (delete_step w))"
proof (cases "is_document (chapter_doc w) \<and> 0 \<le> current_idx w")
  case True
  then obtain kvs xs where c: "chapter_doc w = JObj kvs" and m: "map_of kvs ''steps'' = Some (JArr xs)"
    using is_document_obtain by blast
  have s: "steps_of (chapter_doc w) = xs" using c m by (simp add: steps_of_def)
  have lo: "0 \<le> current_idx w" using True by simp
  have hi: "current_idx w < int (length xs)" using assms lo s by (auto simp: ptr_ok_def)
  have ne: "xs \<noteq> []" "kvs \<noteq> []" using lo hi m by auto
  define xs' where "xs' = take (nat (current_idx w)) xs @ drop (Suc (nat (current_idx w))) xs"
  define w1 where "w1 = w\<lparr>chapter_doc := store_steps (chapter_doc w) xs',
                             current_idx := min (current_idx w) (int (length xs') - 1)\<rparr>"
  have l: "int (length xs') = int (length xs) - 1" using lo hi by (simp add: xs'_def)
  have "steps_of (chapter_doc w1) = xs'" by (simp add: w1_def c steps_of_store)
  then have p1: "ptr_ok w1" using l lo hi by (auto simp: ptr_ok_def w1_def)
  have "delete_step w = run [
     rebuild_step_list True,
     (\<lambda>w. if current_idx w \<ge> 0
          then (case py_get (chapter_doc w) ''steps'' (JArr []) of
                  Inl e \<Rightarrow> (Some e, w)
                | Inr steps' \<Rightarrow>
                    (case py_getitem steps' (current_idx w) of
                       Inl e \<Rightarrow> (Some e, w) | Inr step \<Rightarrow> show_step step w))
          else (None, w\<lparr>visible_child := ''placeholder''\<rparr>)),
     mark_dirty] w1"
    unfolding delete_step_def w1_def xs'_def Let_def
    using c m lo hi ne by (simp del: run.simps)
  then show ?thesis using delete_block_ptr[OF p1] by simp
next
  case False
  then show ?thesis using assms
    by (auto simp: delete_step_def ptr_ok_def is_document_def steps_of_def
          split: json.splits option.splits sum.splits)
qed

lemma move_block_ptr:
  "ptr_ok w \<Longrightarrow> ptr_ok (snd (run [rebuild_step_list True, mark_dirty] w))"
  by (rule run_invariant) (auto simp: rebuild_ptr mark_dirty_ptr)

lemma move_step_body_ptr:
  assumes "ptr_ok w"
  shows "ptr_ok (snd (move_step_body d w))"
proof (cases "chapter_doc w")
  case (JObj kvs)
  show ?thesis
  proof (cases "map_of kvs ''steps''")
    case None
    then show ?thesis using JObj assms by (simp add: move_step_body_def Let_def)
  next
    case (Some steps)
    show ?thesis
    proof (cases steps)
      case (JArr xs)
      show ?thesis
        unfolding move_step_body_def Let_def
        using JObj Some JArr assms
        by (auto simp del: run.simps split: sum.splits intro!: move_block_ptr)
           (auto simp: ptr_ok_def steps_of_store)
    qed (use JObj Some assms in
          \<open>auto simp: move_step_body_def Let_def split: sum.splits\<close>)
  qed
qed (use assms in \<open>auto simp: move_step_body_def\<close>)

lemma move_step_ptr: "ptr_ok w \<Longrightarrow> ptr_ok (snd (move_step d w))"
  unfolding move_step_def
  by (auto intro!: run2_ptr flush_ptr move_step_body_ptr simp del: run.simps)

lemma strip_id:
  assumes "s \<noteq> []" "\<not> isspace (hd s)" "\<not> isspace (last s)"
  shows "strip s = s"
proof -
  have a: "dropWhile isspace s = s" using assms(1,2) by (cases s) auto
  have "rev s \<noteq> []" "\<not> isspace (hd (rev s))" using assms(1,3) by (simp_all add: hd_rev)
  then have "dropWhile isspace (rev s) = rev s" by (cases "rev s") auto
  then show ?thesis by (simp add: strip_def a)
qed

lemma last_dropWhile: "dropWhile P xs \<noteq> [] \<Longrightarrow> last (dropWhile P xs) = last xs"
  by (induction xs) (auto split: if_splits)

lemma strip_ends:
  assumes "strip s \<noteq> []"
  shows "\<not> isspace (hd (strip s))" and "\<not> isspace (last (strip s))"
proof -
  define r where "r = dropWhile isspace s"
  define q where "q = dropWhile isspace (rev r)"
  have u: "strip s = rev q" by (simp add: strip_def q_def r_def)
  have qn: "q \<noteq> []" using assms u by simp
  then have rn: "r \<noteq> []" by (auto simp: q_def)
  have "\<not> isspace (hd q)" using qn unfolding q_def by (rule hd_dropWhile)
  then show "\<not> isspace (last (strip s))" using qn by (simp add: u last_rev)
  have "last q = last (rev r)" using qn unfolding q_def by (rule last_dropWhile)
  also have "\<dots> = hd r" using rn by (simp add: last_rev)
  finally have "last q = hd r" .
  moreover have "\<not> isspace (hd r)" using rn unfolding r_def by (rule hd_dropWhile)
  ultimately show "\<not> isspace (hd (strip s))" using qn by (simp add: u hd_rev)
qed

lemma strip_strip: "strip (strip s) = strip s"
proof (cases "strip s = []")
  case True
  then show ?thesis by (simp add: strip_Nil)
next
  case False
  then show ?thesis using strip_ends[OF False] by (intro strip_id)
qed

lemma set_strip: "set (strip s) \<subseteq> set s"
proof -
  have "set (dropWhile isspace (rev (dropWhile isspace s))) \<subseteq> set (rev (dropWhile isspace s))"
    by (auto dest: set_dropWhileD)
  also have "\<dots> \<subseteq> set s" by (auto dest: set_dropWhileD)
  finally show ?thesis by (simp add: strip_def)
qed

lemma split_on_no_sep: "\<forall>p \<in> set (split_on sep s). sep \<notin> set p"
  by (induction s) (auto split: list.splits)

lemma split_on_without_sep: "sep \<notin> set s \<Longrightarrow> split_on sep s = [s]"
  by (induction s) (auto split: list.splits)

lemma opponent_moves_items:
  assumes "m \<in> set (opponent_moves t)"
  shows "m \<noteq> []" and "strip m = m" and "CHR '','' \<notin> set m"
proof -
  from assms obtain p where p: "p \<in> set (split_on CHR '','' t)" and m: "m = strip p" and n: "m \<noteq> []"
    by (auto simp: opponent_moves_refines)
  show "m \<noteq> []" by (rule n)
  show "strip m = m" by (simp add: m strip_strip)
  have "CHR '','' \<notin> set p" using p split_on_no_sep by blast
  then show "CHR '','' \<notin> set m" using set_strip[of p] m by auto
qed

lemma split_join_moves:
  assumes "\<forall>m \<in> set ms. m \<noteq> [] \<and> strip m = m \<and> CHR '','' \<notin> set m"
  shows "filter (\<lambda>m. m \<noteq> []) (map strip (split_on CHR '','' (join '', '' ms))) = ms"
  using assms
proof (induction ms)
  case Nil
  show ?case by (simp add: strip_Nil)
next
  case (Cons m ms)
  have m: "m \<noteq> []" "strip m = m" "\<forall>c \<in> set m. c \<noteq> CHR '',''" using Cons.prems by auto
  show ?case
  proof (cases ms)
    case Nil
    have "split_on CHR '','' m = [m]" using m(3) by (intro split_on_without_sep) auto
    then show ?thesis using Nil m by simp
  next
    case (Cons m' ms')
    define J where "J = join '', '' ms"
    have j: "join '', '' (m # ms) = m @ CHR '','' # CHR '' '' # J" using Cons by (simp add: J_def)
    obtain h t where ht: "split_on CHR '','' J = h # t"
      using split_on_not_Nil[of "CHR '',''" J] by (cases "split_on CHR '','' J") auto
    have sp: "split_on CHR '','' (CHR '' '' # J) = (CHR '' '' # h) # t"
      using split_on_prepend[of "[CHR '' '']" "CHR '',''" J] ht by simp
    have s1: "split_on CHR '','' (m @ CHR '','' # CHR '' '' # J) = m # (CHR '' '' # h) # t"
      using split_on_prepend[OF m(3), of "CHR '','' # CHR '' '' # J"] sp by simp
    have st: "strip (CHR '' '' # h) = strip h"
      using strip_prepend[of "[CHR '' '']" h] by (simp add: isspace_def)
    have ih: "filter (\<lambda>m. m \<noteq> []) (map strip (h # t)) = ms"
      using Cons.IH Cons.prems ht by (simp add: J_def)
    show ?thesis unfolding j s1 using m ih by (simp add: st)
  qed
qed

lemma opponent_moves_join: "opponent_moves (join '', '' (opponent_moves t)) = opponent_moves t"
  unfolding opponent_moves_refines[of "join '', '' (opponent_moves t)"]
  by (rule split_join_moves) (use opponent_moves_items in blast)

lemma str_items_strings: "str_items (map JStr ms) = Inr ms"
  by (induction ms) auto

lemma truthy_empty_board: "truthy empty_board"
  by (simp add: empty_board_def BOARD_SIZE_def eval_nat_numeral)

lemma index_PLAYERS: "i < length PLAYERS \<Longrightarrow> index_or_zero PLAYERS (JStr (PLAYERS ! i)) = i"
  by (cases i; cases "i - 1") (auto simp: PLAYERS_def)

lemma index_WIN_CONDITIONS:
  "i < length WIN_CONDITIONS \<Longrightarrow> index_or_zero WIN_CONDITIONS (JStr (WIN_CONDITIONS ! i)) = i"
  by (cases i; cases "i - 1") (auto simp: WIN_CONDITIONS_def)

text \<open>\<open>set_step\<close> on the step that the editor extracts: the fields it leaves.\<close>

lemma reload_fields:
  assumes d: "puzzle_get_step_data p = Inr d" and ok: "widgets_ok p"
  shows "\<exists>l. snd (puzzle_set_step d p) =
           p\<lparr>id_entry := strip (id_entry p), title_entry := strip (title_entry p),
             desc_entry := strip (desc_entry p), hint_entry := strip (hint_entry p),
             opp_entry := join '', '' (opponent_moves (opp_entry p)), loading := l\<rparr>"
proof -
  have wc: "win_combo p < length WIN_CONDITIONS" and pc: "player_combo p < length PLAYERS"
    using d by (auto simp: puzzle_get_step_data_def const_index_def split: if_splits)
  have dd: "d = JObj [
             (''type'', JStr ''puzzle''),
             (''id'', JStr (strip (id_entry p))),
             (''title'', JStr (strip (title_entry p))),
             (''description'', JStr (strip (desc_entry p))),
             (''player'', JStr (PLAYERS ! player_combo p)),
             (''hint'', JStr (strip (hint_entry p))),
             (''board'', board p),
             (''win_condition'',
                JObj [(''type'', JStr (WIN_CONDITIONS ! win_combo p)),
                      (''max_moves'', JInt (max_moves_spin p))]),
             (''opponent_moves'', JArr (map JStr (opponent_moves (opp_entry p))))]"
    using d wc pc by (simp add: puzzle_get_step_data_def const_index_def)
  have sp: "max 1 (min 20 (max_moves_spin p)) = max_moves_spin p"
    using ok by (simp add: widgets_ok_def)
  have tb: "truthy (board p)" using ok by (simp add: widgets_ok_def)
  show ?thesis
    unfolding dd puzzle_set_step_def
    using tb
    by (cases "refresh_exc (board p)")
       (auto simp: set_text_def index_PLAYERS[OF pc] index_WIN_CONDITIONS[OF wc]
          spin_set_value_def sp join_json_def str_items_strings set_board_def Let_def
          intro: exI[of _ False] exI[of _ True])
qed

lemma reload_keeps_data:
  assumes d: "puzzle_get_step_data p = Inr d" and ok: "widgets_ok p"
  shows "puzzle_get_step_data (snd (puzzle_set_step d p)) = Inr d"
    and "widgets_ok (snd (puzzle_set_step d p))"
proof -
  obtain l where f: "snd (puzzle_set_step d p) =
           p\<lparr>id_entry := strip (id_entry p), title_entry := strip (title_entry p),
             desc_entry := strip (desc_entry p), hint_entry := strip (hint_entry p),
             opp_entry := join '', '' (opponent_moves (opp_entry p)), loading := l\<rparr>"
    using reload_fields[OF d ok] by blast
  have wc: "win_combo p < length WIN_CONDITIONS" and pc: "player_combo p < length PLAYERS"
    using d by (auto simp: puzzle_get_step_data_def const_index_def split: if_splits)
  have dd: "Inr d = puzzle_get_step_data p" using d by simp
  show "puzzle_get_step_data (snd (puzzle_set_step d p)) = Inr d"
    unfolding f dd using wc pc
    by (simp add: puzzle_get_step_data_def const_index_def strip_strip opponent_moves_join)
  show "widgets_ok (snd (puzzle_set_step d p))"
    using ok unfolding f by (simp add: widgets_ok_def)
qed

text \<open>
  What \<open>flush w = (None, w)\<close> says of a document whose active index is a position of
  \<open>steps\<close>: the active editor extracts the active step.
\<close>

lemma flush_synced_intro:
  assumes c: "chapter_doc w = JObj kvs" and m: "map_of kvs ''steps'' = Some (JArr xs)"
    and lo: "0 \<le> current_idx w" and hi: "current_idx w < int (length xs)"
    and t: "py_get (xs ! nat (current_idx w)) ''type'' JNull = Inr stype"
    and p: "stype = JStr ''puzzle'' \<Longrightarrow>
            puzzle_get_step_data (puzzle_ed w) = Inr (xs ! nat (current_idx w))"
    and d: "stype \<noteq> JStr ''puzzle'' \<Longrightarrow> stype = JStr ''dialog'' \<Longrightarrow>
            dialog_get_step_data (dialog_lines w) = xs ! nat (current_idx w)"
  shows "flush w = (None, w)"
proof -
  have same: "w\<lparr>chapter_doc := JObj (dict_set kvs ''steps''
                 (JArr (xs[nat (current_idx w) := xs ! nat (current_idx w)])))\<rparr> = w"
    using c m by (simp add: dict_set_same)
  show ?thesis
    unfolding flush_document[OF c m lo hi] t
    using p d same by (cases "stype = JStr ''puzzle''"; cases "stype = JStr ''dialog''") simp_all
qed

lemma flush_synced_elim:
  assumes sync: "flush w = (None, w)"
    and c: "chapter_doc w = JObj kvs" and m: "map_of kvs ''steps'' = Some (JArr xs)"
    and lo: "0 \<le> current_idx w" and hi: "current_idx w < int (length xs)"
  obtains stype where "py_get (xs ! nat (current_idx w)) ''type'' JNull = Inr stype"
    and "stype = JStr ''puzzle'' \<Longrightarrow>
         puzzle_get_step_data (puzzle_ed w) = Inr (xs ! nat (current_idx w))"
    and "stype \<noteq> JStr ''puzzle'' \<Longrightarrow> stype = JStr ''dialog'' \<Longrightarrow>
         dialog_get_step_data (dialog_lines w) = xs ! nat (current_idx w)"
proof -
  note f = flush_document[OF c m lo hi]
  have inj: "w\<lparr>chapter_doc := JObj (dict_set kvs ''steps'' (JArr (xs[nat (current_idx w) := d])))\<rparr> = w
             \<Longrightarrow> d = xs ! nat (current_idx w)" for d
  proof -
    assume "w\<lparr>chapter_doc := JObj (dict_set kvs ''steps'' (JArr (xs[nat (current_idx w) := d])))\<rparr> = w"
    then have "JObj kvs = JObj (dict_set kvs ''steps'' (JArr (xs[nat (current_idx w) := d])))"
      using c window_chapter_same by metis
    then have "dict_set kvs ''steps'' (JArr (xs[nat (current_idx w) := d])) = kvs" by simp
    then have "JArr (xs[nat (current_idx w) := d]) = JArr xs" using m dict_set_inject by blast
    then have "xs[nat (current_idx w) := d] = xs" by simp
    then have "xs[nat (current_idx w) := d] ! nat (current_idx w) = xs ! nat (current_idx w)" by simp
    then show ?thesis using lo hi by simp
  qed
  show ?thesis
  proof (cases "py_get (xs ! nat (current_idx w)) ''type'' JNull")
    case (Inl e)
    then show ?thesis using sync f by simp
  next
    case (Inr stype)
    have "puzzle_get_step_data (puzzle_ed w) = Inr (xs ! nat (current_idx w))"
      if "stype = JStr ''puzzle''"
    proof (cases "puzzle_get_step_data (puzzle_ed w)")
      case (Inl e)
      then show ?thesis using sync f Inr that by simp
    next
      case r: (Inr d)
      then have "d = xs ! nat (current_idx w)" using sync f Inr that inj by simp
      then show ?thesis using r by simp
    qed
    moreover have "dialog_get_step_data (dialog_lines w) = xs ! nat (current_idx w)"
      if "stype \<noteq> JStr ''puzzle''" "stype = JStr ''dialog''"
      using sync f Inr that inj by simp
    ultimately show ?thesis using that[OF Inr] by blast
  qed
qed

lemma show_step_keeps_sync:
  assumes sync: "flush w = (None, w)"
    and c: "chapter_doc w = JObj kvs" and m: "map_of kvs ''steps'' = Some (JArr xs)"
    and lo: "0 \<le> current_idx w" and hi: "current_idx w < int (length xs)"
    and ok: "widgets_ok (puzzle_ed w)"
  shows "flush (snd (show_step (xs ! nat (current_idx w)) w))
           = (None, snd (show_step (xs ! nat (current_idx w)) w))"
    and "widgets_ok (puzzle_ed (snd (show_step (xs ! nat (current_idx w)) w)))"
proof -
  define S where "S = xs ! nat (current_idx w)"
  define w3 where "w3 = snd (show_step S w)"
  have c3: "chapter_doc w3 = JObj kvs" and i3: "current_idx w3 = current_idx w"
    by (simp_all add: w3_def show_step_chapter show_step_idx c)
  obtain stype where t: "py_get S ''type'' JNull = Inr stype"
    and p: "stype = JStr ''puzzle'' \<Longrightarrow> puzzle_get_step_data (puzzle_ed w) = Inr S"
    and d: "stype \<noteq> JStr ''puzzle'' \<Longrightarrow> stype = JStr ''dialog'' \<Longrightarrow>
            dialog_get_step_data (dialog_lines w) = S"
    using flush_synced_elim[OF sync c m lo hi] unfolding S_def by blast
  have "flush w3 = (None, w3) \<and> widgets_ok (puzzle_ed w3)"
  proof (cases "stype = JStr ''puzzle''")
    case True
    note g = p[OF True]
    have e: "puzzle_ed w3 = snd (puzzle_set_step S (puzzle_ed w))"
      unfolding w3_def show_step_def t using True
      by (cases "puzzle_set_step S (puzzle_ed w)") (auto split: option.splits)
    have "puzzle_get_step_data (puzzle_ed w3) = Inr S" and k: "widgets_ok (puzzle_ed w3)"
      unfolding e by (rule reload_keeps_data[OF g ok])+
    then have "flush w3 = (None, w3)"
      using True t by (intro flush_synced_intro[OF c3 m]) (auto simp: i3 lo hi S_def)
    then show ?thesis using k by simp
  next
    case np: False
    show ?thesis
    proof (cases "stype = JStr ''dialog''")
      case True
      note g = d[OF np True]
      have l: "py_get S ''lines'' (JArr []) = Inr (dialog_lines w)"
        unfolding g[symmetric] by (simp add: dialog_get_step_data_def)
      have e: "dialog_lines w3 = dialog_lines w" and pe: "puzzle_ed w3 = puzzle_ed w"
        unfolding w3_def show_step_def t using np True l
        by (auto simp: dialog_set_step_def split: option.splits)
      have "flush w3 = (None, w3)"
        using True np t g by (intro flush_synced_intro[OF c3 m]) (auto simp: i3 lo hi S_def e)
      then show ?thesis using ok pe by simp
    next
      case False
      have pe: "puzzle_ed w3 = puzzle_ed w"
        unfolding w3_def show_step_def t using np False by simp
      have "flush w3 = (None, w3)"
        using False np t by (intro flush_synced_intro[OF c3 m]) (auto simp: i3 lo hi S_def)
      then show ?thesis using ok pe by simp
    qed
  qed
  then show "flush (snd (show_step (xs ! nat (current_idx w)) w))
           = (None, snd (show_step (xs ! nat (current_idx w)) w))"
    and "widgets_ok (puzzle_ed (snd (show_step (xs ! nat (current_idx w)) w)))"
    by (simp_all add: w3_def S_def)
qed

lemma on_row_selected_synced:
  assumes sync: "flush w = (None, w)"
    and c: "chapter_doc w = JObj kvs" and m: "map_of kvs ''steps'' = Some (JArr xs)"
    and lo: "0 \<le> current_idx w" and hi: "current_idx w < int (length xs)"
  shows "snd (on_row_selected (nat (current_idx w)) w)
         = snd (show_step (xs ! nat (current_idx w)) w)"
proof -
  have same: "w\<lparr>current_idx := int (nat (current_idx w))\<rparr> = w" using lo by simp
  have g: "py_getitem (JArr xs) (current_idx w) = Inr (xs ! nat (current_idx w))"
    using lo hi by (simp add: list_index_nat)
  show ?thesis
    unfolding on_row_selected_def
    using sync c m lo hi same g
    by (cases "show_step (xs ! nat (current_idx w)) w") (auto split: option.splits)
qed

lemma rebuild_synced:
  assumes sync: "flush w = (None, w)"
    and c: "chapter_doc w = JObj kvs" and m: "map_of kvs ''steps'' = Some (JArr xs)"
    and lo: "0 \<le> current_idx w" and hi: "current_idx w < int (length xs)"
    and ok: "widgets_ok (puzzle_ed w)"
  shows "chapter_doc (snd (rebuild_step_list True w)) = chapter_doc w"
    and "current_idx (snd (rebuild_step_list True w)) = current_idx w"
    and "flush (snd (rebuild_step_list True w)) = (None, snd (rebuild_step_list True w))"
    and "widgets_ok (puzzle_ed (snd (rebuild_step_list True w)))"
proof -
  have ne: "kvs \<noteq> []" using m by auto
  have idx: "min (current_idx w) (int (length xs) - 1) = current_idx w" using hi by simp
  consider (exc) "snd (rebuild_step_list True w) = w"
    | (sel) "snd (rebuild_step_list True w) = snd (show_step (xs ! nat (current_idx w)) w)"
  proof (cases "rebuild_step_list_exc w")
    case None
    then have "snd (rebuild_step_list True w) = snd (on_row_selected (nat (current_idx w)) w)"
      using c m lo ne by (simp add: rebuild_step_list_def idx Let_def)
    then show ?thesis using sel on_row_selected_synced[OF sync c m lo hi] by simp
  next
    case (Some e)
    then show ?thesis using exc by (simp add: rebuild_step_list_def)
  qed
  then have "chapter_doc (snd (rebuild_step_list True w)) = chapter_doc w
     \<and> current_idx (snd (rebuild_step_list True w)) = current_idx w
     \<and> flush (snd (rebuild_step_list True w)) = (None, snd (rebuild_step_list True w))
     \<and> widgets_ok (puzzle_ed (snd (rebuild_step_list True w)))"
  proof cases
    case exc
    then show ?thesis using sync ok by simp
  next
    case sel
    show ?thesis
      unfolding sel
      using show_step_keeps_sync[OF sync c m lo hi ok]
      by (simp add: show_step_chapter show_step_idx)
  qed
  then show "chapter_doc (snd (rebuild_step_list True w)) = chapter_doc w"
    and "current_idx (snd (rebuild_step_list True w)) = current_idx w"
    and "flush (snd (rebuild_step_list True w)) = (None, snd (rebuild_step_list True w))"
    and "widgets_ok (puzzle_ed (snd (rebuild_step_list True w)))"
    by simp_all
qed

lemma flush_dirty:
  "flush (w\<lparr>dirty := b\<rparr>) = (fst (flush w), (snd (flush w))\<lparr>dirty := b\<rparr>)"
  by (auto simp: flush_def split: sum.splits json.splits)

lemma mark_dirty_synced:
  assumes "flush w = (None, w)"
  shows "flush (snd (mark_dirty w)) = (None, snd (mark_dirty w))"
  using assms by (simp add: mark_dirty_def flush_dirty)

lemma mark_dirty_puzzle_ed: "puzzle_ed (snd (mark_dirty w)) = puzzle_ed w"
  by (simp add: mark_dirty_def)

lemma move_block_synced:
  assumes sync: "flush w = (None, w)"
    and c: "chapter_doc w = JObj kvs" and m: "map_of kvs ''steps'' = Some (JArr xs)"
    and lo: "0 \<le> current_idx w" and hi: "current_idx w < int (length xs)"
    and ok: "widgets_ok (puzzle_ed w)"
  shows "chapter_doc (snd (run [rebuild_step_list True, mark_dirty] w)) = chapter_doc w"
    and "current_idx (snd (run [rebuild_step_list True, mark_dirty] w)) = current_idx w"
    and "flush (snd (run [rebuild_step_list True, mark_dirty] w))
           = (None, snd (run [rebuild_step_list True, mark_dirty] w))"
    and "widgets_ok (puzzle_ed (snd (run [rebuild_step_list True, mark_dirty] w)))"
proof -
  note r = rebuild_synced[OF sync c m lo hi ok]
  define w1 where "w1 = snd (rebuild_step_list True w)"
  consider "snd (run [rebuild_step_list True, mark_dirty] w) = w1"
    | "snd (run [rebuild_step_list True, mark_dirty] w) = snd (mark_dirty w1)"
    by (cases "rebuild_step_list True w"; cases "fst (rebuild_step_list True w)")
       (auto simp: w1_def split: prod.splits option.splits)
  then have "chapter_doc (snd (run [rebuild_step_list True, mark_dirty] w)) = chapter_doc w
     \<and> current_idx (snd (run [rebuild_step_list True, mark_dirty] w)) = current_idx w
     \<and> flush (snd (run [rebuild_step_list True, mark_dirty] w))
           = (None, snd (run [rebuild_step_list True, mark_dirty] w))
     \<and> widgets_ok (puzzle_ed (snd (run [rebuild_step_list True, mark_dirty] w)))"
  proof cases
    case 1
    then show ?thesis using r by (simp add: w1_def)
  next
    case 2
    then show ?thesis
      using r mark_dirty_synced[of w1]
      by (simp add: w1_def mark_dirty_chapter mark_dirty_idx mark_dirty_puzzle_ed)
  qed
  then show "chapter_doc (snd (run [rebuild_step_list True, mark_dirty] w)) = chapter_doc w"
    and "current_idx (snd (run [rebuild_step_list True, mark_dirty] w)) = current_idx w"
    and "flush (snd (run [rebuild_step_list True, mark_dirty] w))
           = (None, snd (run [rebuild_step_list True, mark_dirty] w))"
    and "widgets_ok (puzzle_ed (snd (run [rebuild_step_list True, mark_dirty] w)))"
    by simp_all
qed

lemma move_step_body_document:
  assumes "chapter_doc w = JObj kvs" "map_of kvs ''steps'' = Some (JArr xs)"
    and "0 \<le> current_idx w" "current_idx w < int (length xs)"
    and "0 \<le> current_idx w + d" "current_idx w + d < int (length xs)"
  shows "move_step_body d w =
     run [rebuild_step_list True, mark_dirty]
       (w\<lparr>chapter_doc := JObj (dict_set kvs ''steps''
              (JArr ((xs[nat (current_idx w) := xs ! nat (current_idx w + d)])
                        [nat (current_idx w + d) := xs ! nat (current_idx w)]))),
          current_idx := current_idx w + d\<rparr>)"
  unfolding move_step_body_def Let_def
  using assms by (simp add: list_index_nat del: run.simps)

lemma move_step_there_and_back:
  assumes doc: "is_document (chapter_doc w)" and sync: "flush w = (None, w)"
    and ok: "widgets_ok (puzzle_ed w)"
    and lo: "0 \<le> current_idx w"
    and hi: "current_idx w + 1 < int (length (steps_of (chapter_doc w)))"
  shows "chapter_doc (snd (move_step (- 1) (snd (move_step 1 w)))) = chapter_doc w
       \<and> current_idx (snd (move_step (- 1) (snd (move_step 1 w)))) = current_idx w"
proof -
  obtain kvs xs where c: "chapter_doc w = JObj kvs" and m: "map_of kvs ''steps'' = Some (JArr xs)"
    using doc by (rule is_document_obtain)
  have s: "steps_of (chapter_doc w) = xs" using c m by (simp add: steps_of_def)
  have hi': "current_idx w + 1 < int (length xs)" using hi s by simp
  have hi0: "current_idx w < int (length xs)" using hi' by simp
  have tr: "truthy (chapter_doc w)" using c m by auto
  define i where "i = nat (current_idx w)"
  define xs2 where "xs2 = (xs[i := xs ! (Suc i)])[Suc i := xs ! i]"
  define kvs2 where "kvs2 = dict_set kvs ''steps'' (JArr xs2)"
  define blk where "blk = [rebuild_step_list True, mark_dirty]"
  define ws where "ws = w\<lparr>chapter_doc := JObj kvs2, current_idx := int i + 1\<rparr>"
  define w2 where "w2 = snd (move_step 1 w)"
  have ii: "current_idx w = int i" "Suc i < length xs" using lo hi' by (auto simp: i_def)
  have n1: "nat (int i + 1) = Suc i" by simp
  have m2: "map_of kvs2 ''steps'' = Some (JArr xs2)" by (simp add: kvs2_def map_of_dict_set)
  have l2: "length xs2 = length xs" by (simp add: xs2_def)
  have "move_step 1 w = move_step_body 1 w"
    using tr lo run_two[of flush w w, OF sync] by (simp add: move_step_def del: run.simps)
  also have "\<dots> = run blk ws"
    using move_step_body_document[OF c m lo hi0, of 1] lo hi' ii
    by (simp add: blk_def ws_def kvs2_def xs2_def n1 del: run.simps)
  finally have mv1: "move_step 1 w = run blk ws" .
  have wsc: "chapter_doc ws = JObj kvs2" and wsi: "current_idx ws = int i + 1"
    and wsp: "puzzle_ed ws = puzzle_ed w" and wsd: "dialog_lines ws = dialog_lines w"
    by (simp_all add: ws_def)
  have wslo: "0 \<le> current_idx ws" and wshi: "current_idx ws < int (length xs2)"
    using ii l2 wsi by auto
  have same: "xs2 ! nat (current_idx ws) = xs ! nat (current_idx w)"
    using ii by (simp add: wsi n1 xs2_def)
  have syncs: "flush ws = (None, ws)"
    by (rule flush_sync_transfer[OF sync c m lo hi0 wsc m2 wslo wshi same wsp wsd])
  have oks: "widgets_ok (puzzle_ed ws)" using ok wsp by simp
  note b1 = move_block_synced[OF syncs wsc m2 wslo wshi oks, folded blk_def]
  have w2c: "chapter_doc w2 = JObj kvs2" and w2i: "current_idx w2 = int i + 1"
    and sync2: "flush w2 = (None, w2)" and ok2: "widgets_ok (puzzle_ed w2)"
    unfolding w2_def mv1 using b1 wsc wsi by simp_all
  have tr2: "truthy (chapter_doc w2)" using w2c m2 by auto
  have w2lo: "0 \<le> current_idx w2" and w2hi: "current_idx w2 < int (length xs2)"
    using ii l2 w2i by auto
  define wt where "wt = w2\<lparr>chapter_doc := JObj (dict_set kvs2 ''steps''
              (JArr ((xs2[Suc i := xs2 ! i])[i := xs2 ! Suc i]))), current_idx := int i\<rparr>"
  have "move_step (- 1) w2 = move_step_body (- 1) w2"
    using tr2 w2i run_two[of flush w2 w2, OF sync2] by (simp add: move_step_def del: run.simps)
  also have "\<dots> = run blk wt"
    using move_step_body_document[OF w2c m2, of "- 1"] ii l2 w2i
    by (simp add: blk_def wt_def n1 del: run.simps)
  finally have mv2: "move_step (- 1) w2 = run blk wt" .
  have swapped: "(xs2[Suc i := xs2 ! i])[i := xs2 ! Suc i] = xs"
    unfolding xs2_def using swap_back[of i xs "Suc i"] ii by simp
  have kb: "dict_set kvs2 ''steps'' (JArr xs) = kvs"
    by (simp add: kvs2_def dict_set_twice dict_set_same m)
  have wtc: "chapter_doc wt = JObj kvs" and wti: "current_idx wt = int i"
    and wtp: "puzzle_ed wt = puzzle_ed w2" and wtd: "dialog_lines wt = dialog_lines w2"
    by (simp_all add: wt_def swapped kb)
  have wtlo: "0 \<le> current_idx wt" and wthi: "current_idx wt < int (length xs)"
    using ii wti by auto
  have samet: "xs ! nat (current_idx wt) = xs2 ! nat (current_idx w2)"
    using ii by (simp add: wti w2i n1 xs2_def)
  have synct: "flush wt = (None, wt)"
    by (rule flush_sync_transfer[OF sync2 w2c m2 w2lo w2hi wtc m wtlo wthi samet wtp wtd])
  have okt: "widgets_ok (puzzle_ed wt)" using ok2 wtp by simp
  note b2 = move_block_synced[OF synct wtc m wtlo wthi okt, folded blk_def]
  have "chapter_doc (snd (move_step (- 1) w2)) = JObj kvs"
    and "current_idx (snd (move_step (- 1) w2)) = int i"
    unfolding mv2 using b2 wtc wti by simp_all
  then show ?thesis using c ii by (simp add: w2_def)
qed









text \<open>The states of the widgets: where the editor starts, and what keeps them.\<close>

lemma widgets_ok_init: "widgets_ok init_puzzle_editor"
  by (simp add: widgets_ok_def init_puzzle_editor_def truthy_empty_board)

lemma set_text_widgets:
  "(\<And>t q. max_moves_spin (upd t q) = max_moves_spin q \<and> board (upd t q) = board q) \<Longrightarrow>
   widgets_ok p \<Longrightarrow> widgets_ok (snd (set_text upd r p))"
  by (auto simp: set_text_def widgets_ok_def split: sum.splits json.splits)

lemma widgets_ok_set_step:
  assumes "widgets_ok p"
  shows "widgets_ok (snd (puzzle_set_step s p))"
  unfolding puzzle_set_step_def
proof (rule run_invariant[where P = widgets_ok, OF _ assms])
  fix f q assume "f \<in> set [
       (\<lambda>p. (None, p\<lparr>loading := True\<rparr>)),
       set_text (\<lambda>t p. p\<lparr>id_entry := t\<rparr>) (py_get s ''id'' (JStr [])),
       set_text (\<lambda>t p. p\<lparr>title_entry := t\<rparr>) (py_get s ''title'' (JStr [])),
       set_text (\<lambda>t p. p\<lparr>desc_entry := t\<rparr>) (py_get s ''description'' (JStr [])),
       set_text (\<lambda>t p. p\<lparr>hint_entry := t\<rparr>) (py_get s ''hint'' (JStr [])),
       (\<lambda>p. case py_get s ''player'' (JStr ''white'') of Inl e \<Rightarrow> (Some e, p)
            | Inr player \<Rightarrow> (None, p\<lparr>player_combo := index_or_zero PLAYERS player\<rparr>)),
       (\<lambda>p. case py_get s ''win_condition'' (JObj []) of Inl e \<Rightarrow> (Some e, p)
            | Inr wc \<Rightarrow>
              (case py_get wc ''type'' (JStr ''capture_chief'') of Inl e \<Rightarrow> (Some e, p)
               | Inr wc_type \<Rightarrow>
                   (let p' = p\<lparr>win_combo := index_or_zero WIN_CONDITIONS wc_type\<rparr>
                    in case py_get wc ''max_moves'' (JInt 1) of Inl e \<Rightarrow> (Some e, p')
                       | Inr mm \<Rightarrow> spin_set_value mm p'))),
       (\<lambda>p. case py_get s ''opponent_moves'' (JArr []) of Inl e \<Rightarrow> (Some e, p)
            | Inr opp_moves \<Rightarrow> set_text (\<lambda>t p. p\<lparr>opp_entry := t\<rparr>) (join_json '', '' opp_moves) p),
       (\<lambda>p. case py_get s ''board'' empty_board of Inl e \<Rightarrow> (Some e, p)
            | Inr b \<Rightarrow> set_board b p),
       (\<lambda>p. (None, p\<lparr>loading := False\<rparr>))
     ]" and q: "widgets_ok q"
  then show "widgets_ok (snd (f q))"
    using q
    by (auto simp: set_text_widgets spin_set_value_def set_board_def Let_def truthy_empty_board
          widgets_ok_def set_text_def split: sum.splits json.splits)
qed

lemma widgets_ok_place:
  assumes "widgets_ok (puzzle_ed w)"
  shows "widgets_ok (puzzle_ed (snd (place row col piece w)))"
proof (cases "place_cell (board (puzzle_ed w)) row col piece")
  case (Inl e)
  then show ?thesis using assms by (simp add: place_def)
next
  case (Inr b)
  then have t: "truthy b"
    by (auto simp: place_cell_def list_index_def split: sum.splits json.splits if_splits)
  have "board (puzzle_ed (snd (place row col piece w))) = b" using Inr by (rule place_board)
  moreover have "max_moves_spin (puzzle_ed (snd (place row col piece w))) = max_moves_spin (puzzle_ed w)"
    using Inr by (auto simp: place_def mark_dirty_def split: option.splits)
  ultimately show ?thesis using assms t by (simp add: widgets_ok_def)
qed

section \<open>The claim about chapter files\<close>

subsection \<open>C1: saving a chapter and loading it back\<close>




section \<open>The claims about the step operations\<close>

subsection \<open>C2: deleting with the index out of bounds\<close>

text \<open>
  C2 as the specification states it: for every document and every index outside the
  bounds of \<open>steps\<close>, \<open>deleteStep\<close> fails with \<open>IndexError\<close> and leaves \<open>steps\<close>
  unchanged. \<^verbatim>\<open>_delete_step\<close> takes no index: it deletes the active step, and it
  guards both ends (\<^verbatim>\<open>self._current_idx < 0\<close>, \<^verbatim>\<open>self._current_idx >= len(steps)\<close>)
  with a plain \<^verbatim>\<open>return\<close>. On the scenario chapter with no active step (index
  \<open>-1\<close>), and with the index set to \<open>1\<close> past its single step, nothing is raised.
\<close>

theorem delete_step_raises_no_IndexError:
  "current_idx scenario_window < 0
   \<and> fst (delete_step scenario_window) \<noteq> Some IndexError
   \<and> int (length (steps_of (chapter_doc scenario_window))) \<le> current_idx (scenario_window\<lparr>current_idx := 1\<rparr>)
   \<and> fst (delete_step (scenario_window\<lparr>current_idx := 1\<rparr>)) \<noteq> Some IndexError"
  by (simp add: delete_step_def scenario_window_def scenario_chapter_def init_window_def
        steps_of_def)

text \<open>
  C2 as amended: for every document and every active index outside the bounds of \<open>steps\<close>
  (negative, or at least the number of steps), \<^verbatim>\<open>_delete_step\<close> returns without raising
  anything and leaves the steps, and the whole window, unchanged.
\<close>

theorem delete_step_out_of_bounds_noop:
  assumes "is_document (chapter_doc w)"
    and "current_idx w < 0 \<or> int (length (steps_of (chapter_doc w))) \<le> current_idx w"
  shows "delete_step w = (None, w)"
  using assms by (rule delete_step_noop)

theorem delete_step_out_of_bounds_noop_witness:
  "is_document (chapter_doc scenario_window)
   \<and> current_idx scenario_window < 0
   \<and> delete_step scenario_window = (None, scenario_window)"
proof -
  have d: "is_document (chapter_doc scenario_window)"
    by (simp add: is_document_def scenario_window_def scenario_chapter_def)
  have i: "current_idx scenario_window < 0"
    by (simp add: scenario_window_def init_window_def)
  show ?thesis using d i delete_step_out_of_bounds_noop[OF d disjI1[OF i]] by simp
qed

subsection \<open>C3: the id of a new puzzle step\<close>



subsection \<open>C4: the pointer to the active step\<close>

text \<open>
  C4: the invariant that the index of the active step is \<open>-1\<close> or a position of \<open>steps\<close>
  is kept by \<^verbatim>\<open>_add_step\<close>, \<^verbatim>\<open>_delete_step\<close>, \<^verbatim>\<open>_move_step\<close> and \<^verbatim>\<open>_flush\<close>, in the
  state each of them leaves, whether it returned or raised. This covers the handler
  \<^verbatim>\<open>_on_row_selected\<close> that runs inside them, which assigns the index of the row it is
  given.
\<close>

theorem current_idx_invariant:
  assumes "ptr_ok w"
  shows "ptr_ok (snd (add_step t w)) \<and> ptr_ok (snd (delete_step w))
       \<and> ptr_ok (snd (move_step d w)) \<and> ptr_ok (snd (flush w))"
  using assms by (simp add: add_step_ptr delete_step_ptr move_step_ptr flush_ptr)

text \<open>
  The chapter of a dialog step and a puzzle step with the dialog step active: every
  operation goes through its whole body.
\<close>

theorem current_idx_invariant_witness:
  "ptr_ok two_step_window
   \<and> ptr_ok (snd (add_step ''dialog'' two_step_window))
   \<and> current_idx (snd (add_step ''dialog'' two_step_window)) = 1
   \<and> length (steps_of (chapter_doc (snd (add_step ''dialog'' two_step_window)))) = 3
   \<and> ptr_ok (snd (delete_step two_step_window))
   \<and> current_idx (snd (delete_step two_step_window)) = 0
   \<and> length (steps_of (chapter_doc (snd (delete_step two_step_window)))) = 1
   \<and> ptr_ok (snd (move_step 1 two_step_window))
   \<and> current_idx (snd (move_step 1 two_step_window)) = 1
   \<and> ptr_ok (snd (flush two_step_window))"
proof -
  have p: "ptr_ok two_step_window"
    by (simp add: ptr_ok_def two_step_window_def steps_of_def)
  have a: "current_idx (snd (add_step ''dialog'' two_step_window)) = 1"
    "length (steps_of (chapter_doc (snd (add_step ''dialog'' two_step_window)))) = 3"
    by code_simp+
  have b: "current_idx (snd (delete_step two_step_window)) = 0"
    "length (steps_of (chapter_doc (snd (delete_step two_step_window)))) = 1"
    by code_simp+
  have c: "current_idx (snd (move_step 1 two_step_window)) = 1"
    by code_simp
  show ?thesis
    using p a b c current_idx_invariant[OF p, of "''dialog''" 1] by simp
qed

subsection \<open>C5: deleting the active step\<close>

text \<open>
  C5: with the active index \<open>i\<close> in bounds, \<open>deleteStep\<close> removes the step at \<open>i\<close> and the
  new active index is the smaller of \<open>i\<close> and the last position, or none. \<^verbatim>\<open>_delete_step\<close>
  deletes the entry at the active index and sets the index so, but then rebuilds the
  step list with \<^verbatim>\<open>keep_selection\<close>: \<^verbatim>\<open>select_row\<close> runs \<^verbatim>\<open>_on_row_selected\<close>, whose
  \<^verbatim>\<open>_flush\<close> writes what the editor still holds, the data of the deleted step, over the
  step that has moved to the active index. In a chapter of the puzzle steps \<^verbatim>\<open>ch1_p01\<close>
  and \<^verbatim>\<open>ch1_p02\<close> with the first one selected and flushed, deleting leaves the first
  step: the second one is lost.
\<close>

theorem delete_step_overwrites_next_step:
  "steps_of (chapter_doc two_puzzle_window) = [first_puzzle, second_puzzle]
   \<and> current_idx two_puzzle_window = 0
   \<and> flush two_puzzle_window = (None, two_puzzle_window)
   \<and> fst (delete_step two_puzzle_window) = None
   \<and> steps_of (chapter_doc (snd (delete_step two_puzzle_window))) = [first_puzzle]
   \<and> first_puzzle \<noteq> second_puzzle
   \<and> current_idx (snd (delete_step two_puzzle_window)) = 0"
  by code_simp

text \<open>The step that is left carries the id of the step that was to be deleted.\<close>

theorem delete_step_overwrites_next_step_witness:
  "length (steps_of (chapter_doc (snd (delete_step two_puzzle_window)))) = 1
   \<and> py_getkey (hd (steps_of (chapter_doc (snd (delete_step two_puzzle_window))))) ''id''
       = Inr (JStr ''ch1_p01'')
   \<and> py_getkey second_puzzle ''id'' = Inr (JStr ''ch1_p02'')"
  using delete_step_overwrites_next_step by (simp add: first_puzzle_def second_puzzle_def)

subsection \<open>C7: moving a step down and up again\<close>

text \<open>
  C7: on a document whose active editing buffer has been flushed (\<^verbatim>\<open>_flush\<close> changes
  nothing and raises nothing), the widgets of the puzzle editor being in a state they
  can be in, with the active index \<open>i\<close> and \<open>i + 1\<close> both positions of \<open>steps\<close>,
  \<^verbatim>\<open>_move_step(+1)\<close> followed by \<^verbatim>\<open>_move_step(-1)\<close> gives back the chapter and the active
  index; and a move whose neighbour index is out of bounds returns without an exception
  and changes nothing. The handler of the step list runs inside each move: it flushes
  again and loads the moved step into its editor, which then extracts the same step.
\<close>

theorem move_step_down_up:
  assumes "is_document (chapter_doc w)" and "flush w = (None, w)"
    and "widgets_ok (puzzle_ed w)"
  shows "(0 \<le> current_idx w \<and> current_idx w + 1 < int (length (steps_of (chapter_doc w)))
            \<longrightarrow> chapter_doc (snd (move_step (- 1) (snd (move_step 1 w)))) = chapter_doc w
              \<and> current_idx (snd (move_step (- 1) (snd (move_step 1 w)))) = current_idx w)
       \<and> (\<not> (0 \<le> current_idx w + d \<and> current_idx w + d < int (length (steps_of (chapter_doc w))))
            \<longrightarrow> move_step d w = (None, w))"
  using assms move_step_there_and_back[of w] move_step_noop[of w d] by blast

text \<open>The chapter of two puzzle steps, the first one selected.\<close>

theorem move_step_down_up_witness:
  "is_document (chapter_doc two_puzzle_window)
   \<and> flush two_puzzle_window = (None, two_puzzle_window)
   \<and> widgets_ok (puzzle_ed two_puzzle_window)
   \<and> 0 \<le> current_idx two_puzzle_window
   \<and> current_idx two_puzzle_window + 1 < int (length (steps_of (chapter_doc two_puzzle_window)))
   \<and> steps_of (chapter_doc (snd (move_step 1 two_puzzle_window))) = [second_puzzle, first_puzzle]
   \<and> chapter_doc (snd (move_step (- 1) (snd (move_step 1 two_puzzle_window))))
       = chapter_doc two_puzzle_window
   \<and> current_idx (snd (move_step (- 1) (snd (move_step 1 two_puzzle_window)))) = 0
   \<and> \<not> (0 \<le> current_idx two_puzzle_window + (- 1))
   \<and> move_step (- 1) two_puzzle_window = (None, two_puzzle_window)"
proof -
  have d: "is_document (chapter_doc two_puzzle_window)" by code_simp
  have f: "flush two_puzzle_window = (None, two_puzzle_window)" by code_simp
  have k: "widgets_ok (puzzle_ed two_puzzle_window)" by code_simp
  have i: "current_idx two_puzzle_window = 0" by code_simp
  have n: "steps_of (chapter_doc two_puzzle_window) = [first_puzzle, second_puzzle]" by code_simp
  have s: "steps_of (chapter_doc (snd (move_step 1 two_puzzle_window))) = [second_puzzle, first_puzzle]"
    by code_simp
  show ?thesis
    using d f k i n s move_step_down_up[OF d f k, of "- 1"] by simp
qed

section \<open>The claims about the editors and the server\<close>

subsection \<open>C6: the opponent moves of a puzzle step\<close>

text \<open>
  C6: the step that \<^verbatim>\<open>PuzzleEditor.get_step_data\<close> extracts has, under
  \<^verbatim>\<open>"opponent_moves"\<close>, the text of the opponent-moves entry split at the commas, each
  piece stripped of whitespace, the empty pieces dropped. (The code strips the whole text
  first and tests each piece before stripping it; the result is the same.)
\<close>

theorem extracted_opponent_moves:
  assumes "puzzle_get_step_data p = Inr step"
  shows "py_getkey step ''opponent_moves''
         = Inr (JArr (map JStr
                  (filter (\<lambda>m. m \<noteq> []) (map strip (split_on CHR '','' (opp_entry p))))))"
  using assms
  by (auto simp: puzzle_get_step_data_def opponent_moves_refines split: sum.splits)

text \<open>The example of the specification: the entry \<^verbatim>\<open>"Kd1,,  Kd2 "\<close> gives the two moves.\<close>

theorem extracted_opponent_moves_witness:
  "puzzle_get_step_data (init_puzzle_editor\<lparr>opp_entry := ''Kd1,,  Kd2 ''\<rparr>)
     = Inr (JObj [
         (''type'', JStr ''puzzle''), (''id'', JStr []), (''title'', JStr []),
         (''description'', JStr []), (''player'', JStr ''white''), (''hint'', JStr []),
         (''board'', empty_board),
         (''win_condition'', JObj [(''type'', JStr ''capture_chief''), (''max_moves'', JInt 1)]),
         (''opponent_moves'', JArr [JStr ''Kd1'', JStr ''Kd2''])])
   \<and> py_getkey (JObj [
         (''type'', JStr ''puzzle''), (''id'', JStr []), (''title'', JStr []),
         (''description'', JStr []), (''player'', JStr ''white''), (''hint'', JStr []),
         (''board'', empty_board),
         (''win_condition'', JObj [(''type'', JStr ''capture_chief''), (''max_moves'', JInt 1)]),
         (''opponent_moves'', JArr [JStr ''Kd1'', JStr ''Kd2''])]) ''opponent_moves''
     = Inr (JArr (map JStr
              (filter (\<lambda>m. m \<noteq> []) (map strip (split_on CHR '','' ''Kd1,,  Kd2 '')))))"
proof -
  have h: "puzzle_get_step_data (init_puzzle_editor\<lparr>opp_entry := ''Kd1,,  Kd2 ''\<rparr>)
     = Inr (JObj [
         (''type'', JStr ''puzzle''), (''id'', JStr []), (''title'', JStr []),
         (''description'', JStr []), (''player'', JStr ''white''), (''hint'', JStr []),
         (''board'', empty_board),
         (''win_condition'', JObj [(''type'', JStr ''capture_chief''), (''max_moves'', JInt 1)]),
         (''opponent_moves'', JArr [JStr ''Kd1'', JStr ''Kd2''])])"
    by (simp add: puzzle_get_step_data_def init_puzzle_editor_def const_index_def
          WIN_CONDITIONS_def PLAYERS_def opponent_moves_def strip_def isspace_def)
  show ?thesis using h extracted_opponent_moves[OF h] by simp
qed

subsection \<open>C8: placing a piece into a cell\<close>

text \<open>
  C8 as the specification states it: coordinates outside \<open>[0,5)\<close> are rejected with an
  \<open>OutOfRange\<close> error and the board is left unchanged. \<^verbatim>\<open>BoardGrid._place\<close> has no check
  of its own: it indexes the nested lists, and Python takes a negative index from the
  end. Placing at row \<open>-1\<close>, column \<open>0\<close> of the empty board raises nothing and puts the
  piece into row \<open>4\<close>.
\<close>

theorem place_accepts_negative_row:
  "fst (place (- 1) 0 white_chief init_window) = None
   \<and> cell_at (board (puzzle_ed init_window)) 4 0 = JNull
   \<and> cell_at (board (puzzle_ed (snd (place (- 1) 0 white_chief init_window)))) 4 0 = white_chief"
  by (simp add: place_def place_cell_def list_index_def init_window_def init_puzzle_editor_def
        empty_board_def BOARD_SIZE_def eval_nat_numeral cell_at_def refresh_exc_def
        board_cells_def cell_exc_def white_chief_def mark_dirty_def update_title_exc_def)

text \<open>
  C8 as amended: on a 5 by 5 board, \<^verbatim>\<open>_place\<close> with row and column in \<open>[0,5)\<close> replaces
  exactly that cell and keeps the board 5 by 5; with the row or the column at least \<open>5\<close>
  or below \<open>-5\<close> it raises \<open>IndexError\<close> and leaves the board, and the window, unchanged.
\<close>

theorem place_sets_one_cell:
  assumes "is_board (board (puzzle_ed w))"
  shows "(0 \<le> row \<and> row < 5 \<and> 0 \<le> col \<and> col < 5 \<longrightarrow>
            is_board (board (puzzle_ed (snd (place row col piece w))))
            \<and> (\<forall>r<5. \<forall>c<5. cell_at (board (puzzle_ed (snd (place row col piece w)))) r c
                  = (if r = nat row \<and> c = nat col then piece
                     else cell_at (board (puzzle_ed w)) r c)))
       \<and> (5 \<le> row \<or> row < - 5 \<or> 5 \<le> col \<or> col < - 5 \<longrightarrow>
            place row col piece w = (Some IndexError, w))"
  using assms by (rule place_set_cell_aux)

theorem place_sets_one_cell_witness:
  "is_board (board (puzzle_ed init_window))
   \<and> cell_at (board (puzzle_ed (snd (place 2 3 white_chief init_window)))) 2 3 = white_chief
   \<and> cell_at (board (puzzle_ed (snd (place 2 3 white_chief init_window)))) 2 4 = JNull
   \<and> place 5 0 white_chief init_window = (Some IndexError, init_window)"
proof -
  have b: "is_board (board (puzzle_ed init_window))"
    by (simp add: is_board_def init_window_def init_puzzle_editor_def empty_board_def
          BOARD_SIZE_def eval_nat_numeral)
  have e: "cell_at (board (puzzle_ed init_window)) 2 4 = JNull"
    by (simp add: cell_at_def init_window_def init_puzzle_editor_def empty_board_def
          BOARD_SIZE_def eval_nat_numeral)
  have n: "nat 2 = 2" "nat 3 = 3" by simp_all
  have "(2::nat) < 5" "(3::nat) < 5" "(4::nat) < 5" by simp_all
  then show ?thesis
    using b e place_sets_one_cell[OF b, of 2 3 white_chief]
      place_sets_one_cell[OF b, of 5 0 white_chief]
    by (simp add: n)
qed

subsection \<open>C9: blank fields of a dialog line\<close>

text \<open>
  C9: when the text typed into a field of line \<open>idx\<close> of the dialog editor is empty after
  stripping, the step that \<^verbatim>\<open>DialogEditor.get_step_data\<close> then extracts has \<^verbatim>\<open>None\<close>
  (JSON \<^verbatim>\<open>null\<close>) under that field of that line.
\<close>

theorem blank_dialog_field_is_null:
  assumes "dialog_lines w = JArr ls" and "idx < length ls" and "ls ! idx = JObj kvs"
    and "strip text = []"
  shows "dialog_get_step_data (dialog_lines (snd (on_field_changed text idx key w)))
         = JObj [(''type'', JStr ''dialog''),
                 (''lines'', JArr (ls[idx := JObj (dict_set kvs key JNull)]))]
       \<and> py_getkey (JObj (dict_set kvs key JNull)) key = Inr JNull"
  using assms by (rule on_field_changed_blank)

text \<open>The example of the specification: two spaces typed as the speaker.\<close>

theorem blank_dialog_field_is_null_witness:
  "dialog_lines two_step_window
     = JArr [JObj [(''speaker'', JNull), (''portrait'', JNull), (''text'', JStr [])]]
   \<and> strip ''  '' = []
   \<and> dialog_get_step_data (dialog_lines (snd (on_field_changed ''  '' 0 ''speaker'' two_step_window)))
     = JObj [(''type'', JStr ''dialog''),
             (''lines'', JArr [JObj [(''speaker'', JNull), (''portrait'', JNull), (''text'', JStr [])]])]"
proof -
  have l: "dialog_lines two_step_window
     = JArr [JObj [(''speaker'', JNull), (''portrait'', JNull), (''text'', JStr [])]]"
    by (simp add: two_step_window_def init_window_def)
  have s: "strip ''  '' = []" by (simp add: strip_def isspace_def)
  have i: "(0::nat) < length [JObj [(''speaker'', JNull), (''portrait'', JNull), (''text'', JStr [])]]"
    by simp
  have n: "[JObj [(''speaker'', JNull), (''portrait'', JNull), (''text'', JStr [])]] ! 0
           = JObj [(''speaker'', JNull), (''portrait'', JNull), (''text'', JStr [])]"
    by simp
  show ?thesis
    using l s blank_dialog_field_is_null[OF l i n s, of "''speaker''"] by simp
qed

subsection \<open>C10: what the server sends for \<^verbatim>\<open>/data/\<close> requests\<close>

text \<open>
  C10: file content is sent only for a path that resolves into the project's \<^verbatim>\<open>data\<close>
  directory. \<^verbatim>\<open>_serve_data_file\<close> compares the resolved path with the data directory as
  strings (\<^verbatim>\<open>str(file_path).startswith(str(DATA_DIR.resolve()))\<close>), so a path that
  resolves into a sibling whose name begins with \<^verbatim>\<open>data\<close> passes the check. In a
  project \<^verbatim>\<open>/proj\<close> with a directory \<^verbatim>\<open>data_private\<close>, the request
  \<^verbatim>\<open>GET /data/../data_private/secret.json\<close> is answered with the content of a file
  outside \<^verbatim>\<open>/proj/data\<close>.
\<close>

theorem dev_server_serves_sibling_directory:
  "do_GET ''/proj'' sibling_fs [] ''/data/../data_private/secret.json'' = Send_content ''secret''
   \<and> resolve (''/proj'' @ ''/'' @ ''data/../data_private/secret.json'')
       = Inr ''/proj/data_private/secret.json''
   \<and> resolve (''/proj'' @ ''/data'') = Inr ''/proj/data''
   \<and> \<not> inside ''/proj/data'' ''/proj/data_private/secret.json''"
  by (simp add: do_GET_def serve_data_file_def resolve_def starts_with_def sibling_fs_def inside_def)

end
